theory Spec2Isabelle
  imports Main "HOL-Library.AList"
begin

section \<open>The network as the code sees it\<close>

text \<open>
  Everything the fetch client does goes through node-fetch's \<open>fetch\<close>. A call either
  throws (DNS failure, connection reset, invalid URL) or yields a response with a status,
  a status text and a body; reading the body with \<open>response.json()\<close> throws when the
  body is not JSON. Parsed bodies are modelled at the TypeScript type the source casts
  them to (the casts \<open>as T\<close> are not checked at run time).

  The transport is a parameter: it answers the request with index \<open>n\<close> (the number of
  requests sent before it), so that it may answer the same request differently over time.
  The logger calls only print and are left out. In a request, \<open>httpMethod\<close> and \<open>rbody\<close>
  stand for the \<open>method\<close> and \<open>body\<close> that \<open>fetch\<close> is given.
\<close>

datatype error = FetchError string | SyntaxError string | TypeError string

datatype ApiMethod = GET | POST

record 'p request =
  uri :: string
  headers :: "(string \<times> string) list"
  httpMethod :: ApiMethod
  rbody :: "'p option"

record 'b response =
  status :: nat
  statusText :: string
  json :: "error + 'b"

datatype 'b reply = Throws error | Responds "'b response"

type_synonym ('p, 'b) transport = "nat \<Rightarrow> 'p request \<Rightarrow> 'b reply"

text \<open>
  The world records what left the process: the requests \<open>apiFetch\<close> and \<open>getAllUsers\<close>
  handed to \<open>fetch\<close>, oldest first, the arguments of the \<open>sleep\<close> calls, in seconds, and
  the number of requests sent to the token endpoint.
\<close>

record 'p world =
  issued :: "'p request list"
  slept :: "nat list"
  tokenRequests :: nat

section \<open>apiFetch (src/utils/apiFetch.ts)\<close>

text \<open>
  \<open>FetchResponse\<close> is the second component of the failure tuple \<open>[null, FetchResponse]\<close>.
  Its \<open>body\<close> is \<open>unknown\<close> in the source; three shapes are ever stored there.
\<close>

datatype 'b body =
  Message string
  | MessageError string error
  | Parsed 'b

record 'b FetchResponse =
  ok :: bool
  body :: "'b body"
  code :: "nat option"
  response :: "'b response option"

text \<open>
  The request \<open>fetch\<close> receives: the caller's headers are spread over the default
  \<open>Content-Type\<close>, one after the other (a key that is there keeps its place and takes
  the new value, a new key goes to the end), and a falsy payload (\<open>None\<close>) gives no body. \<open>JSON.stringify\<close> is
  taken as the identity on payloads.
\<close>

definition mergedHeaders :: "(string \<times> string) list \<Rightarrow> (string \<times> string) list" where
  "mergedHeaders hs =
     fold (\<lambda>(k, v). AList.update k v) hs [(''Content-Type'', ''application/json'')]"

definition methodOrDefault :: "ApiMethod option \<Rightarrow> ApiMethod" where
  "methodOrDefault m = (case m of None \<Rightarrow> POST | Some x \<Rightarrow> x)"

definition fetchRequest ::
  "string \<Rightarrow> (string \<times> string) list \<Rightarrow> 'p option \<Rightarrow> ApiMethod option \<Rightarrow> 'p request" where
  "fetchRequest u hs payload m =
     \<lparr>uri = u, headers = mergedHeaders hs, httpMethod = methodOrDefault m, rbody = payload\<rparr>"

definition gaveUp :: "'b FetchResponse" where
  "gaveUp = \<lparr>ok = False, body = Message ''429 - Gave up'', code = Some 0, response = None\<rparr>"

definition threwUp :: "error \<Rightarrow> 'b FetchResponse" where
  "threwUp e =
     \<lparr>ok = False, body = MessageError ''fetch throwed up'' e, code = Some 0, response = None\<rparr>"

definition badResponse :: "'b response \<Rightarrow> 'b \<Rightarrow> 'b FetchResponse" where
  "badResponse r b = \<lparr>ok = True, body = Parsed b, code = Some (status r), response = Some r\<rparr>"

text \<open>
  One call of \<open>apiFetch\<close>: sleep, send, parse, classify. The result \<open>[body, null]\<close> is
  \<open>Inr body\<close> and \<open>[null, fetchResponse]\<close> is \<open>Inl fetchResponse\<close>. The \<open>try\<close> block
  covers \<open>fetch\<close> and \<open>response.json()\<close>; both throws end in the \<open>catch\<close> branch. The
  recursive call passes the method after defaulting and \<open>delay + 15\<close>.
\<close>

function apiFetch ::
  "('p, 'b) transport \<Rightarrow> string \<Rightarrow> (string \<times> string) list \<Rightarrow> 'p option \<Rightarrow>
   ApiMethod option \<Rightarrow> nat \<Rightarrow> 'p world \<Rightarrow> ('b FetchResponse + 'b) \<times> 'p world" where
  "apiFetch tr u hs payload m delay w =
     (let w1 = w\<lparr>slept := slept w @ [delay]\<rparr>;
          req = fetchRequest u hs payload m;
          w2 = w1\<lparr>issued := issued w1 @ [req]\<rparr>
      in case tr (length (issued w1)) req of
           Throws e \<Rightarrow> (Inl (threwUp e), w2)
         | Responds r \<Rightarrow>
             (case json r of
                Inl e \<Rightarrow> (Inl (threwUp e), w2)
              | Inr b \<Rightarrow>
                  if status r = 429 then
                    if delay \<le> 60
                    then apiFetch tr u hs payload (Some (methodOrDefault m)) (delay + 15) w2
                    else (Inl gaveUp, w2)
                  else if status r \<noteq> 200 then (Inl (badResponse r b), w2)
                  else (Inr b, w2)))"
  by pat_completeness auto
termination
  by (relation "measure (\<lambda>(tr, u, hs, payload, m, delay, w). 75 - delay)") auto

declare apiFetch.simps [simp del]

section \<open>The token cache (src/utils/getCSODToken.ts)\<close>

text \<open>
  \<open>getOauthToken\<close> always sends the same request, so the token endpoint is a function of
  the number of token requests sent before. Its status is never read. \<open>oauthElapsed\<close> is
  the time, in milliseconds, between the clock reading at the entry of \<open>get\<close> and the
  second reading \<open>expiration = new Date()\<close>, taken once the token has arrived.

  Times are ECMAScript time values: milliseconds since the epoch, in UTC. \<open>getSeconds\<close> and
  \<open>setSeconds\<close> work on local time, so the time zone of the host is a parameter too:
  \<open>LocalTZA t True\<close> is the offset of local time from UTC at the instant \<open>t\<close>, and
  \<open>LocalTZA t False\<close> the offset by which the local time value \<open>t\<close> is read back as an
  instant (a local time that occurs twice, or not at all, at a transition is read with
  the offset before the transition).
\<close>

record TokenResponse =
  access_token :: string
  expires_in :: nat
  scope :: string
  token_type :: string

record ('p, 'b) env =
  CSOD_API_HOST :: string
  oauth :: "nat \<Rightarrow> TokenResponse reply"
  oauthElapsed :: "nat \<Rightarrow> nat"
  LocalTZA :: "int \<Rightarrow> bool \<Rightarrow> int"
  transport :: "('p, 'b) transport"

text \<open>The closure variables of \<open>apiToken\<close>; both are unassigned at start.\<close>

record apiToken =
  token :: "string option"
  expiration :: "int option"

definition fetchAPIToken ::
  "('p, 'b) env \<Rightarrow> 'p world \<Rightarrow> (error + string) \<times> 'p world" where
  "fetchAPIToken e w =
     (let w' = w\<lparr>tokenRequests := Suc (tokenRequests w)\<rparr>
      in case oauth e (tokenRequests w) of
           Throws err \<Rightarrow> (Inl err, w')
         | Responds r \<Rightarrow>
             (case json r of
                Inl err \<Rightarrow> (Inl err, w')
              | Inr t \<Rightarrow> (Inr (token_type t @ '' '' @ access_token t), w')))"

text \<open>
  \<open>Date.prototype.getSeconds\<close> and \<open>Date.prototype.setSeconds\<close> with one argument, as the
  language defines them (ECMA-262, Date objects). A seconds field above 59 is not
  reduced: \<open>MakeTime\<close> just adds it up. \<open>TimeClip\<close> is left out; it changes nothing for a
  time value within 8.64e15 ms of the epoch.
\<close>

definition Day :: "int \<Rightarrow> int" where
  "Day t = t div 86400000"

definition HourFromTime :: "int \<Rightarrow> int" where
  "HourFromTime t = (t div 3600000) mod 24"

definition MinFromTime :: "int \<Rightarrow> int" where
  "MinFromTime t = (t div 60000) mod 60"

definition SecFromTime :: "int \<Rightarrow> int" where
  "SecFromTime t = (t div 1000) mod 60"

definition msFromTime :: "int \<Rightarrow> int" where
  "msFromTime t = t mod 1000"

definition MakeTime :: "int \<Rightarrow> int \<Rightarrow> int \<Rightarrow> int \<Rightarrow> int" where
  "MakeTime hour minute sec ms = hour * 3600000 + minute * 60000 + sec * 1000 + ms"

definition MakeDate :: "int \<Rightarrow> int \<Rightarrow> int" where
  "MakeDate day time = day * 86400000 + time"

definition LocalTime :: "('p, 'b) env \<Rightarrow> int \<Rightarrow> int" where
  "LocalTime e t = t + LocalTZA e t True"

definition UTC :: "('p, 'b) env \<Rightarrow> int \<Rightarrow> int" where
  "UTC e t = t - LocalTZA e t False"

definition getSeconds :: "('p, 'b) env \<Rightarrow> int \<Rightarrow> int" where
  "getSeconds e tv = SecFromTime (LocalTime e tv)"

definition setSeconds :: "('p, 'b) env \<Rightarrow> int \<Rightarrow> int \<Rightarrow> int" where
  "setSeconds e tv sec =
     (let t = LocalTime e tv
      in UTC e (MakeDate (Day t) (MakeTime (HourFromTime t) (MinFromTime t) sec (msFromTime t))))"

text \<open>
  The branch of \<open>get\<close> that asks for a token. A throw of \<open>fetchAPIToken\<close> leaves the
  function before either variable is assigned. Otherwise \<open>expiration\<close> is a new reading
  of the clock, with 15 added to its seconds.
\<close>

definition refreshToken ::
  "('p, 'b) env \<Rightarrow> int \<Rightarrow> apiToken \<times> 'p world \<Rightarrow> (error + string) \<times> apiToken \<times> 'p world" where
  "refreshToken e now s =
     (case s of (a, w) \<Rightarrow>
        (case fetchAPIToken e w of
           (Inl err, w') \<Rightarrow> (Inl err, a, w')
         | (Inr t, w') \<Rightarrow>
             (let reading = now + int (oauthElapsed e (tokenRequests w))
              in (Inr t,
                  \<lparr>token = Some t,
                   expiration = Some (setSeconds e reading (getSeconds e reading + 15))\<rparr>,
                  w'))))"

text \<open>
  \<open>get\<close>, entered when the clock reads \<open>now\<close>. The test is
  \<open>!token || !expiration || now > expiration\<close>; an empty string is falsy, a Date never is.
\<close>

definition apiToken_get ::
  "('p, 'b) env \<Rightarrow> int \<Rightarrow> apiToken \<times> 'p world \<Rightarrow> (error + string) \<times> apiToken \<times> 'p world" where
  "apiToken_get e now s =
     (case token (fst s) of
        None \<Rightarrow> refreshToken e now s
      | Some t \<Rightarrow>
          if t = [] then refreshToken e now s
          else (case expiration (fst s) of
                  None \<Rightarrow> refreshToken e now s
                | Some ex \<Rightarrow> if ex < now then refreshToken e now s else (Inr t, s)))"


section \<open>paginatedFetchFromCSOD (src/utils/apiFetch.ts)\<close>

text \<open>
  \<open>ODataResponse\<close>, with its fields \<open>@odata.count\<close>, \<open>value\<close> and \<open>@odata.nextLink\<close>.
\<close>

record 'a ODataResponse =
  odata_count :: "nat option"
  odata_value :: "'a list"
  odata_nextLink :: "string option"

text \<open>\<open>token ?? (await getCSODToken())\<close>: the cache is asked only when no token is passed.\<close>

definition tokenOrGet ::
  "('p, 'b) env \<Rightarrow> int \<Rightarrow> string option \<Rightarrow> apiToken \<times> 'p world \<Rightarrow>
   (error + string) \<times> apiToken \<times> 'p world" where
  "tokenOrGet e now tok s = (case tok of Some t \<Rightarrow> (Inr t, s) | None \<Rightarrow> apiToken_get e now s)"

text \<open>
  \<open>const uri = collection ? uripath : `${CSOD_API_HOST}${uripath}`\<close> and
  \<open>collection ??= []\<close>. A passed collection, even an empty one, is truthy, so every call
  but the first uses the link as it is.
\<close>

definition requestUri :: "('p, 'b) env \<Rightarrow> string \<Rightarrow> 'a list option \<Rightarrow> string" where
  "requestUri e uripath collection =
     (case collection of None \<Rightarrow> CSOD_API_HOST e @ uripath | Some c \<Rightarrow> uripath)"

definition orEmpty :: "'a list option \<Rightarrow> 'a list" where
  "orEmpty collection = (case collection of None \<Rightarrow> [] | Some c \<Rightarrow> c)"

text \<open>
  The walk. The outer \<open>option\<close> is termination: a server that hands out next links for
  ever gives \<open>None\<close>. Inside, \<open>Inl\<close> is the exception of \<open>getCSODToken\<close>, which is not
  caught here, and \<open>Inr\<close> the returned collection. \<open>!nextLink\<close> holds for a missing link
  and for the empty string.
\<close>

partial_function (option) paginatedFetchFromCSOD ::
  "('p, 'a ODataResponse) env \<Rightarrow> int \<Rightarrow> string \<Rightarrow> 'a list option \<Rightarrow> string option \<Rightarrow>
   apiToken \<times> 'p world \<Rightarrow> ((error + 'a list) \<times> apiToken \<times> 'p world) option" where
  "paginatedFetchFromCSOD e now uripath collection tok s =
     (case tokenOrGet e now tok s of
        (Inl err, s1) \<Rightarrow> Some (Inl err, s1)
      | (Inr t, a, w) \<Rightarrow>
          (case apiFetch (transport e) (requestUri e uripath collection)
                  [(''Authorization'', t)] None (Some GET) 0 w of
             (Inl fetchError, w') \<Rightarrow> Some (Inr (orEmpty collection), a, w')
           | (Inr resp, w') \<Rightarrow>
               (let coll = orEmpty collection @ odata_value resp
                in case odata_nextLink resp of
                     None \<Rightarrow> Some (Inr coll, a, w')
                   | Some nextLink \<Rightarrow>
                       if nextLink = [] then Some (Inr coll, a, w')
                       else paginatedFetchFromCSOD e now nextLink (Some coll) (Some t)
                              (a, w'))))"

section \<open>getAllUsers (src/users/getAllUsers.ts)\<close>

text \<open>
  The loop calls \<open>fetch\<close> directly, with no \<open>try\<close>: a throw of \<open>fetch\<close> or of \<open>json()\<close>
  leaves the function (\<open>Inl\<close>), and the status is not read. It stops on a page of fewer
  than 1000 rows. After a full page with no next link \<open>apiUrl\<close> is \<open>undefined\<close>, which
  \<open>fetch\<close> turns into the string \<open>undefined\<close>; what comes of that request is the
  transport's answer.
\<close>

definition usersRequest :: "string \<Rightarrow> string \<Rightarrow> 'p request" where
  "usersRequest apiUrl tok =
     \<lparr>uri = apiUrl,
      headers = [(''Content-Type'', ''application/json''), (''Authorization'', tok)],
      httpMethod = GET, rbody = None\<rparr>"

partial_function (option) getAllUsers_loop ::
  "('p, 'a ODataResponse) transport \<Rightarrow> string \<Rightarrow> string \<Rightarrow> 'a list \<Rightarrow> 'p world \<Rightarrow>
   ((error + 'a list) \<times> 'p world) option" where
  "getAllUsers_loop tr tok apiUrl allUsers w =
     (let req = usersRequest apiUrl tok;
          w' = w\<lparr>issued := issued w @ [req]\<rparr>
      in case tr (length (issued w)) req of
           Throws err \<Rightarrow> Some (Inl err, w')
         | Responds r \<Rightarrow>
             (case json r of
                Inl err \<Rightarrow> Some (Inl err, w')
              | Inr userPayload \<Rightarrow>
                  (let users = odata_value userPayload;
                       allUsers' = allUsers @ users
                   in if length users < 1000 then Some (Inr allUsers', w')
                      else getAllUsers_loop tr tok
                             (case odata_nextLink userPayload of
                                None \<Rightarrow> ''undefined'' | Some l \<Rightarrow> l)
                             allUsers' w')))"

definition getAllUsers ::
  "string \<Rightarrow> ('p, 'a ODataResponse) transport \<Rightarrow> string \<Rightarrow> 'p world \<Rightarrow>
   ((error + 'a list) \<times> 'p world) option" where
  "getAllUsers host tr tok w =
     getAllUsers_loop tr tok (host @ ''/x/odata/api/views/vw_rpt_user'') [] w"

section \<open>Vocabulary of the statements\<close>

text \<open>
  A reply is rate limited when \<open>apiFetch\<close> reads it as a 429: the status is 429 and the
  body parses (the body is parsed before the status is looked at). \<open>sent w ds rs\<close> is the
  world \<open>w\<close> after sleeping \<open>ds\<close> and sending \<open>rs\<close>; \<open>delays d k\<close> are the first \<open>k\<close> delays
  of the backoff that starts at \<open>d\<close>.
\<close>

definition rateLimited :: "'b reply \<Rightarrow> bool" where
  "rateLimited rp =
     (case rp of
        Throws e \<Rightarrow> False
      | Responds r \<Rightarrow> status r = 429 \<and> (case json r of Inl e \<Rightarrow> False | Inr b \<Rightarrow> True))"

definition sent :: "'p world \<Rightarrow> nat list \<Rightarrow> 'p request list \<Rightarrow> 'p world" where
  "sent w ds rs = w\<lparr>slept := slept w @ ds, issued := issued w @ rs\<rparr>"

definition delays :: "nat \<Rightarrow> nat \<Rightarrow> nat list" where
  "delays d k = map (\<lambda>i. d + 15 * i) [0..<k]"

definition emptyWorld :: "'p world" where
  "emptyWorld = \<lparr>issued = [], slept = [], tokenRequests = 0\<rparr>"

definition replyWith :: "nat \<Rightarrow> 'b \<Rightarrow> 'b reply" where
  "replyWith st b = Responds \<lparr>status = st, statusText = [], json = Inr b\<rparr>"

definition always429 :: "(unit, string) transport" where
  "always429 n req = replyWith 429 ''slow down''"

definition okAfter :: "nat \<Rightarrow> (unit, string) transport" where
  "okAfter k n req = (if n < k then replyWith 429 ''slow down'' else replyWith 200 ''done'')"

definition answers :: "'b reply list \<Rightarrow> ('p, 'b) transport" where
  "answers rs n req = (if n < length rs then rs ! n else Throws (FetchError ''ECONNRESET''))"

text \<open>
  The cache is stale at \<open>now\<close> when the test of \<open>get\<close> sends it to the token endpoint.
  The remaining definitions are the servers and states the examples run against.
\<close>

definition stale :: "apiToken \<Rightarrow> int \<Rightarrow> bool" where
  "stale a now =
     (case token a of
        None \<Rightarrow> True
      | Some t \<Rightarrow> t = [] \<or> (case expiration a of None \<Rightarrow> True | Some ex \<Rightarrow> ex < now))"

definition unset :: apiToken where
  "unset = \<lparr>token = None, expiration = None\<rparr>"

definition tokenReply :: "nat \<Rightarrow> string \<Rightarrow> TokenResponse reply" where
  "tokenReply st tok =
     Responds \<lparr>status = st, statusText = [],
               json = Inr \<lparr>access_token = tok, expires_in = 3600, scope = ''all'',
                           token_type = ''Bearer''\<rparr>\<rparr>"

definition numbered :: "nat \<Rightarrow> TokenResponse reply" where
  "numbered n = tokenReply 200 (if n = 0 then ''first'' else ''second'')"

definition unauthorized :: "nat \<Rightarrow> TokenResponse reply" where
  "unauthorized n = tokenReply 401 ''revoked''"

definition unreachable :: "nat \<Rightarrow> TokenResponse reply" where
  "unreachable n = Throws (FetchError ''ENOTFOUND'')"

definition noLatency :: "nat \<Rightarrow> nat" where
  "noLatency n = 0"

text \<open>
  Two time zones: UTC, and one with a fall-back transition at the instant 1730613600000
  (2024-11-03T06:00Z), where the offset goes from four hours behind UTC to five. Local
  time values below 1730599200000 (02:00 on that day) are read with the earlier offset,
  the hour that occurs twice included.
\<close>

definition utcZone :: "int \<Rightarrow> bool \<Rightarrow> int" where
  "utcZone t isUTC = 0"


definition site :: "(nat \<Rightarrow> TokenResponse reply) \<Rightarrow> ('p, 'b) transport \<Rightarrow> ('p, 'b) env" where
  "site oa tr = \<lparr>CSOD_API_HOST = ''https://csod'', oauth = oa, oauthElapsed = noLatency,
                 LocalTZA = utcZone, transport = tr\<rparr>"



text \<open>
  A link is truthy when \<open>!nextLink\<close> is false. A transport serves the pages \<open>ps\<close> from the
  request with index \<open>n\<close> on, to the holder of token \<open>t\<close>, when it answers the request for
  \<open>u\<close> with a 200 carrying the first page, the request for that page's next link with the
  second, and so on; every page but the last then has a next link. \<open>linkAfter u ps\<close> is the
  link the last of those pages hands out, and \<open>afterPages w t u ps\<close> the world once they have
  been fetched.
\<close>

definition truthy :: "string option \<Rightarrow> bool" where
  "truthy l = (case l of None \<Rightarrow> False | Some x \<Rightarrow> x \<noteq> [])"

definition servesPage :: "'b reply \<Rightarrow> 'b \<Rightarrow> bool" where
  "servesPage rp p =
     (case rp of Throws e \<Rightarrow> False | Responds r \<Rightarrow> status r = 200 \<and> json r = Inr p)"

definition pageRequest :: "string \<Rightarrow> string \<Rightarrow> 'p request" where
  "pageRequest u t = fetchRequest u [(''Authorization'', t)] None (Some GET)"

definition linkOf :: "'a ODataResponse \<Rightarrow> string" where
  "linkOf p = (case odata_nextLink p of None \<Rightarrow> [] | Some l \<Rightarrow> l)"

fun servesPages ::
  "('p, 'a ODataResponse) transport \<Rightarrow> string \<Rightarrow> nat \<Rightarrow> string \<Rightarrow> 'a ODataResponse list \<Rightarrow> bool"
  where
  "servesPages tr t n u [] = True"
| "servesPages tr t n u (p # ps) =
     (servesPage (tr n (pageRequest u t)) p \<and>
      (ps = [] \<or> (truthy (odata_nextLink p) \<and> servesPages tr t (Suc n) (linkOf p) ps)))"

fun pageUris :: "string \<Rightarrow> 'a ODataResponse list \<Rightarrow> string list" where
  "pageUris u [] = []"
| "pageUris u (p # ps) = u # pageUris (linkOf p) ps"

definition afterPages :: "'p world \<Rightarrow> string \<Rightarrow> string \<Rightarrow> 'a ODataResponse list \<Rightarrow> 'p world" where
  "afterPages w t u ps =
     sent w (replicate (length ps) 0) (map (\<lambda>x. pageRequest x t) (pageUris u ps))"

fun linkAfter :: "string \<Rightarrow> 'a ODataResponse list \<Rightarrow> string" where
  "linkAfter u [] = u"
| "linkAfter u (p # ps) = linkAfter (linkOf p) ps"

definition page :: "'a list \<Rightarrow> string option \<Rightarrow> 'a ODataResponse" where
  "page xs l = \<lparr>odata_count = None, odata_value = xs, odata_nextLink = l\<rparr>"

definition twoPages :: "(unit, string ODataResponse) env" where
  "twoPages =
     site numbered
       (answers [replyWith 200 (page [''a'', ''b''] (Some ''U2'')),
                 replyWith 200 (page [''c''] None)])"

definition emptyFirstPage :: "(unit, string ODataResponse) env" where
  "emptyFirstPage = site numbered (answers [replyWith 200 (page [] None)])"

definition brokenSecondPage :: "(unit, string ODataResponse) env" where
  "brokenSecondPage =
     site numbered
       (answers [replyWith 200 (page [''a''] (Some ''U2'')), Throws (FetchError ''ECONNRESET'')])"

definition firstToken :: apiToken where
  "firstToken = \<lparr>token = Some ''Bearer first'', expiration = Some 15000\<rparr>"

text \<open>
  A backing dataset that does not change: the reply is a function of the requested URI
  alone.
\<close>

definition uriServer :: "(string \<Rightarrow> 'b reply) \<Rightarrow> ('p, 'b) transport" where
  "uriServer srv n req = srv (uri req)"

text \<open>
  Such a dataset holds the pages \<open>ps\<close> from \<open>u\<close> on when the URI \<open>u\<close> gives the first page,
  that page's next link the second, and so on.
\<close>

fun chain :: "(string \<Rightarrow> 'a ODataResponse reply) \<Rightarrow> string \<Rightarrow> 'a ODataResponse list \<Rightarrow> bool" where
  "chain srv u [] = True"
| "chain srv u (p # ps) =
     (servesPage (srv u) p \<and>
      (ps = [] \<or> (truthy (odata_nextLink p) \<and> chain srv (linkOf p) ps)))"

definition catalogue :: "string \<Rightarrow> string ODataResponse reply" where
  "catalogue u =
     (if u = ''https://csod/view'' then replyWith 200 (page [''a'', ''b''] (Some ''U2''))
      else if u = ''U2'' then replyWith 200 (page [''c''] None)
      else Throws (FetchError ''ENOTFOUND''))"

definition shop :: "(unit, string ODataResponse) env" where
  "shop = site numbered (uriServer catalogue)"

text \<open>
  What \<open>getAllUsers\<close> requests after a full page: the page's next link, or the string
  \<open>undefined\<close> when there is none.
\<close>

definition linkOrUndefined :: "'a ODataResponse \<Rightarrow> string" where
  "linkOrUndefined p = (case odata_nextLink p of None \<Rightarrow> ''undefined'' | Some l \<Rightarrow> l)"

definition shortPages :: "(unit, string ODataResponse) env" where
  "shortPages =
     site numbered
       (answers [replyWith 200 (page [''a''] (Some ''U2'')), replyWith 200 (page [''b''] None)])"

definition fullThenShort :: "(unit, string ODataResponse) env" where
  "fullThenShort =
     site numbered
       (answers [replyWith 200 (page (replicate 1000 ''u'') (Some ''U2'')),
                 replyWith 200 (page [''v''] None)])"

definition usersView :: string where
  "usersView = ''/x/odata/api/views/vw_rpt_user''"

section \<open>Properties of apiFetch\<close>

lemma fetchRequest_method [simp]:
  "fetchRequest u hs p (Some (methodOrDefault m)) = fetchRequest u hs p m"
  by (simp add: fetchRequest_def methodOrDefault_def)

lemma methodOrDefault_Some [simp]: "methodOrDefault (Some x) = x"
  by (simp add: methodOrDefault_def)

lemma apiFetch_method:
  "apiFetch tr u hs p (Some (methodOrDefault m)) d w = apiFetch tr u hs p m d w"
  by (subst (1 2) apiFetch.simps) (simp add: Let_def split: reply.splits sum.splits)

lemma apiFetch_throws:
  "tr (length (issued w)) (fetchRequest u hs p m) = Throws e \<Longrightarrow>
   apiFetch tr u hs p m d w = (Inl (threwUp e), sent w [d] [fetchRequest u hs p m])"
  by (subst apiFetch.simps) (simp add: sent_def)

lemma apiFetch_malformed:
  "tr (length (issued w)) (fetchRequest u hs p m) = Responds r \<Longrightarrow> json r = Inl e \<Longrightarrow>
   apiFetch tr u hs p m d w = (Inl (threwUp e), sent w [d] [fetchRequest u hs p m])"
  by (subst apiFetch.simps) (simp add: sent_def)

lemma apiFetch_200:
  "tr (length (issued w)) (fetchRequest u hs p m) = Responds r \<Longrightarrow> json r = Inr b \<Longrightarrow>
   status r = 200 \<Longrightarrow>
   apiFetch tr u hs p m d w = (Inr b, sent w [d] [fetchRequest u hs p m])"
  by (subst apiFetch.simps) (simp add: sent_def)

lemma apiFetch_bad:
  "tr (length (issued w)) (fetchRequest u hs p m) = Responds r \<Longrightarrow> json r = Inr b \<Longrightarrow>
   status r \<noteq> 200 \<Longrightarrow> status r \<noteq> 429 \<Longrightarrow>
   apiFetch tr u hs p m d w = (Inl (badResponse r b), sent w [d] [fetchRequest u hs p m])"
  by (subst apiFetch.simps) (simp add: sent_def)

lemma apiFetch_gaveUp:
  "rateLimited (tr (length (issued w)) (fetchRequest u hs p m)) \<Longrightarrow> 60 < d \<Longrightarrow>
   apiFetch tr u hs p m d w = (Inl gaveUp, sent w [d] [fetchRequest u hs p m])"
  by (subst apiFetch.simps)
     (auto simp: sent_def rateLimited_def split: reply.splits sum.splits)

lemma apiFetch_429:
  "rateLimited (tr (length (issued w)) (fetchRequest u hs p m)) \<Longrightarrow> d \<le> 60 \<Longrightarrow>
   apiFetch tr u hs p m d w = apiFetch tr u hs p m (d + 15) (sent w [d] [fetchRequest u hs p m])"
  by (subst apiFetch.simps)
     (auto simp: sent_def rateLimited_def apiFetch_method split: reply.splits sum.splits)

lemma sent_sent [simp]: "sent (sent w ds rs) ds' rs' = sent w (ds @ ds') (rs @ rs')"
  by (simp add: sent_def)

lemma issued_sent [simp]: "issued (sent w ds rs) = issued w @ rs"
  by (simp add: sent_def)

lemma slept_sent [simp]: "slept (sent w ds rs) = slept w @ ds"
  by (simp add: sent_def)

lemma sent_Nil [simp]: "sent w [] [] = w"
  by (simp add: sent_def)

lemma delays_Suc: "delays d (Suc k) = d # delays (d + 15) k"
  by (simp add: delays_def upt_rec [of 0] map_Suc_upt [symmetric] del: upt_Suc)

lemma delays_snoc: "delays d (Suc k) = delays d k @ [d + 15 * k]"
  by (simp add: delays_def)

lemma apiFetch_retries:
  "(\<forall>i<k. rateLimited (tr (length (issued w) + i) (fetchRequest u hs p m))) \<Longrightarrow>
   d + 15 * k \<le> 75 \<Longrightarrow>
   apiFetch tr u hs p m d w =
   apiFetch tr u hs p m (d + 15 * k)
     (sent w (delays d k) (replicate k (fetchRequest u hs p m)))"
proof (induction k arbitrary: d w)
  case 0
  then show ?case by (simp add: delays_def)
next
  case (Suc k)
  let ?req = "fetchRequest u hs p m"
  from Suc.prems(1) have first: "rateLimited (tr (length (issued w)) ?req)"
    by (metis add.right_neutral zero_less_Suc)
  from Suc.prems(2) have d: "d \<le> 60" by simp
  have rest: "\<forall>i<k. rateLimited (tr (length (issued (sent w [d] [?req])) + i) ?req)"
    using Suc.prems(1) by (auto simp: less_Suc_eq_0_disj)
  have "apiFetch tr u hs p m d w = apiFetch tr u hs p m (d + 15) (sent w [d] [?req])"
    using first d by (rule apiFetch_429)
  also have "\<dots> = apiFetch tr u hs p m (d + 15 + 15 * k)
     (sent (sent w [d] [?req]) (delays (d + 15) k) (replicate k ?req))"
    using rest Suc.prems(2) by (intro Suc.IH) simp_all
  finally show ?case
    by (simp add: delays_Suc replicate_app_Cons_same ac_simps)
qed

lemma apiFetch_exhausted:
  assumes "\<forall>i<6. rateLimited (tr (length (issued w) + i) (fetchRequest u hs p m))"
  shows "apiFetch tr u hs p m 0 w =
         (Inl gaveUp, sent w [0, 15, 30, 45, 60, 75] (replicate 6 (fetchRequest u hs p m)))"
proof -
  let ?req = "fetchRequest u hs p m"
  let ?w5 = "sent w (delays 0 5) (replicate 5 ?req)"
  have "apiFetch tr u hs p m 0 w = apiFetch tr u hs p m (0 + 15 * 5) ?w5"
    using assms by (intro apiFetch_retries) simp_all
  moreover have "rateLimited (tr (length (issued ?w5)) ?req)"
    using assms by simp
  then have "apiFetch tr u hs p m 75 ?w5 = (Inl gaveUp, sent ?w5 [75] [?req])"
    by (rule apiFetch_gaveUp) simp
  moreover have "delays 0 5 = [0, 15, 30, 45, 60]"
    by (simp add: delays_def upt_rec)
  ultimately show ?thesis
    by (simp add: numeral_eq_Suc)
qed

lemma apiFetch_after_retries:
  assumes "\<forall>i<k. rateLimited (tr (length (issued w) + i) (fetchRequest u hs p m))"
    and "d + 15 * k \<le> 75"
    and "apiFetch tr u hs p m (d + 15 * k)
           (sent w (delays d k) (replicate k (fetchRequest u hs p m))) =
         (out, sent (sent w (delays d k) (replicate k (fetchRequest u hs p m)))
                 [d + 15 * k] [fetchRequest u hs p m])"
  shows "apiFetch tr u hs p m d w =
         (out, sent w (delays d (Suc k)) (replicate (Suc k) (fetchRequest u hs p m)))"
proof -
  have "apiFetch tr u hs p m d w =
        apiFetch tr u hs p m (d + 15 * k)
          (sent w (delays d k) (replicate k (fetchRequest u hs p m)))"
    using assms(1,2) by (rule apiFetch_retries)
  with assms(3) show ?thesis
    by (simp add: delays_snoc replicate_append_same)
qed

lemma apiFetch_cases [case_names throws malformed success bad exhausted retry]:
  fixes tr :: "('p, 'b) transport"
  assumes "\<And>e. tr (length (issued w)) (fetchRequest u hs p m) = Throws e \<Longrightarrow>
             apiFetch tr u hs p m d w = (Inl (threwUp e), sent w [d] [fetchRequest u hs p m]) \<Longrightarrow> Q"
    and "\<And>r e. tr (length (issued w)) (fetchRequest u hs p m) = Responds r \<Longrightarrow> json r = Inl e \<Longrightarrow>
             apiFetch tr u hs p m d w = (Inl (threwUp e), sent w [d] [fetchRequest u hs p m]) \<Longrightarrow> Q"
    and "\<And>r b. tr (length (issued w)) (fetchRequest u hs p m) = Responds r \<Longrightarrow> json r = Inr b \<Longrightarrow>
             status r = 200 \<Longrightarrow>
             apiFetch tr u hs p m d w = (Inr b, sent w [d] [fetchRequest u hs p m]) \<Longrightarrow> Q"
    and "\<And>r b. tr (length (issued w)) (fetchRequest u hs p m) = Responds r \<Longrightarrow> json r = Inr b \<Longrightarrow>
             status r \<noteq> 200 \<Longrightarrow> status r \<noteq> 429 \<Longrightarrow>
             apiFetch tr u hs p m d w = (Inl (badResponse r b), sent w [d] [fetchRequest u hs p m]) \<Longrightarrow> Q"
    and "rateLimited (tr (length (issued w)) (fetchRequest u hs p m)) \<Longrightarrow> 60 < d \<Longrightarrow>
             apiFetch tr u hs p m d w = (Inl gaveUp, sent w [d] [fetchRequest u hs p m]) \<Longrightarrow> Q"
    and "rateLimited (tr (length (issued w)) (fetchRequest u hs p m)) \<Longrightarrow> d \<le> 60 \<Longrightarrow>
             apiFetch tr u hs p m d w =
             apiFetch tr u hs p m (d + 15) (sent w [d] [fetchRequest u hs p m]) \<Longrightarrow> Q"
  shows Q
proof (cases "tr (length (issued w)) (fetchRequest u hs p m)")
  case (Throws e)
  then show ?thesis by (intro assms(1) apiFetch_throws)
next
  case (Responds r)
  show ?thesis
  proof (cases "json r")
    case (Inl e)
    with Responds show ?thesis by (intro assms(2) [of r e] apiFetch_malformed)
  next
    case (Inr b)
    show ?thesis
    proof (cases "status r = 429")
      case True
      with Responds Inr
      have rl: "rateLimited (tr (length (issued w)) (fetchRequest u hs p m))"
        by (simp add: rateLimited_def)
      show ?thesis
      proof (cases "d \<le> 60")
        case True
        with rl show ?thesis by (intro assms(6) apiFetch_429)
      next
        case False
        with rl show ?thesis by (intro assms(5) apiFetch_gaveUp) simp_all
      qed
    next
      case False
      show ?thesis
      proof (cases "status r = 200")
        case True
        with Responds Inr show ?thesis by (intro assms(3) [of r b] apiFetch_200)
      next
        case no200: False
        with Responds Inr False show ?thesis by (intro assms(4) [of r b] apiFetch_bad)
      qed
    qed
  qed
qed

lemma apiFetch_retry_induct [case_names step]:
  fixes tr :: "('p, 'b) transport" and P :: "nat \<Rightarrow> 'p world \<Rightarrow> bool"
  assumes step: "\<And>d w. (rateLimited (tr (length (issued w)) (fetchRequest u hs p m)) \<Longrightarrow>
               d \<le> 60 \<Longrightarrow> P (d + 15) (sent w [d] [fetchRequest u hs p m])) \<Longrightarrow> P d w"
  shows "P d w"
proof -
  have "\<forall>w. P d w"
  proof (induction d rule: measure_induct_rule [where f = "\<lambda>d. 76 - d"])
    case (less d)
    show ?case
    proof (intro allI)
      fix w
      show "P d w"
      proof (rule step)
        assume "d \<le> 60"
        then have "76 - (d + 15) < 76 - d"
          by simp
        then have "\<forall>w. P (d + 15) w"
          by (rule less)
        then show "P (d + 15) (sent w [d] [fetchRequest u hs p m])" ..
      qed
    qed
  qed
  then show ?thesis ..
qed

lemma apiFetch_failure_shape:
  "apiFetch tr u hs p m d w = (Inl f, w') \<Longrightarrow>
   f = gaveUp \<or> (\<exists>e. f = threwUp e) \<or>
   (\<exists>r b n. f = badResponse r b \<and> tr n (fetchRequest u hs p m) = Responds r \<and>
            json r = Inr b \<and> status r \<noteq> 200 \<and> status r \<noteq> 429)"
proof (induction d w rule: apiFetch_retry_induct [where tr = tr and u = u and hs = hs and p = p and m = m])
  case (step d w)
  show ?case
  proof (cases rule: apiFetch_cases [of tr w u hs p m d])
    case (throws e)
    with step.prems have "f = threwUp e" by simp
    then show ?thesis by blast
  next
    case (malformed r e)
    with step.prems have "f = threwUp e" by simp
    then show ?thesis by blast
  next
    case (success r b)
    with step.prems show ?thesis by simp
  next
    case (bad r b)
    with step.prems have "f = badResponse r b" by simp
    with bad show ?thesis by blast
  next
    case exhausted
    with step.prems show ?thesis by simp
  next
    case retry
    with step show ?thesis by simp
  qed
qed

lemma backoff_div: "d \<le> 60 \<Longrightarrow> (75 - d) div 15 = Suc ((75 - (d + 15)) div 15)" for d :: nat
proof -
  assume "d \<le> 60"
  then have "75 - d = (75 - (d + 15)) + 15"
    by simp
  then show ?thesis
    by (simp only: div_add_self2)
qed

lemma apiFetch_attempts:
  "length (issued (snd (apiFetch tr u hs p m d w))) \<le> length (issued w) + 1 + (75 - d) div 15"
proof (induction d w rule: apiFetch_retry_induct [where tr = tr and u = u and hs = hs and p = p and m = m])
  case (step d w)
  show ?case
  proof (cases rule: apiFetch_cases [of tr w u hs p m d])
    case (throws e)
    then show ?thesis by simp
  next
    case (malformed r e)
    then show ?thesis by simp
  next
    case (success r b)
    then show ?thesis by simp
  next
    case (bad r b)
    then show ?thesis by simp
  next
    case exhausted
    then show ?thesis by simp
  next
    case retry
    from step [OF retry(1,2)]
    have "length (issued (snd (apiFetch tr u hs p m d w))) \<le>
          length (issued w) + 1 + Suc ((75 - (d + 15)) div 15)"
      by (simp add: retry(3))
    with backoff_div [OF retry(2)] show ?thesis
      by simp
  qed
qed

section \<open>Properties of the token cache\<close>

lemma apiToken_get_stale:
  "stale a now \<Longrightarrow> apiToken_get e now (a, w) = refreshToken e now (a, w)"
  by (auto simp: stale_def apiToken_get_def split: option.splits)


lemma stale_later: "stale a now \<Longrightarrow> now \<le> now' \<Longrightarrow> stale a now'"
  by (auto simp: stale_def split: option.splits)

lemma time_fields:
  "MakeDate (Day t) (MakeTime (HourFromTime t) (MinFromTime t) (SecFromTime t + k) (msFromTime t)) =
   t + k * 1000"
proof -
  have s: "t = (t div 1000) * 1000 + t mod 1000"
    by simp
  have m: "t div 1000 = (t div 60000) * 60 + (t div 1000) mod 60"
    using zdiv_zmult2_eq [of 60 t 1000] by (simp add: div_mult_mod_eq)
  have h: "t div 60000 = (t div 3600000) * 60 + (t div 60000) mod 60"
    using zdiv_zmult2_eq [of 60 t 60000] by (simp add: div_mult_mod_eq)
  have d: "t div 3600000 = (t div 86400000) * 24 + (t div 3600000) mod 24"
    using zdiv_zmult2_eq [of 24 t 3600000] by (simp add: div_mult_mod_eq)
  define a b c dd x y z v where "a = t div 1000" and "b = t div 60000" and "c = t div 3600000"
    and "dd = t div 86400000" and "x = t mod 1000" and "y = a mod 60" and "z = b mod 60"
    and "v = c mod 24"
  have "t = a * 1000 + x" "a = b * 60 + y" "b = c * 60 + z" "c = dd * 24 + v"
    using s m h d by (simp_all only: a_def b_def c_def dd_def x_def y_def z_def v_def)
  then have "dd * 86400000 + (v * 3600000 + z * 60000 + (y + k) * 1000 + x) = t + k * 1000"
    by (simp add: algebra_simps)
  then show ?thesis
    by (simp only: MakeDate_def MakeTime_def Day_def HourFromTime_def MinFromTime_def
        SecFromTime_def msFromTime_def a_def b_def c_def dd_def x_def y_def z_def v_def)
qed

lemma setSeconds_plus15:
  "setSeconds e r (getSeconds e r + 15) = UTC e (LocalTime e r + 15000)"
  using time_fields [of "LocalTime e r" 15] by (simp add: setSeconds_def getSeconds_def)



lemma refreshToken_throws:
  "oauth e (tokenRequests w) = Throws err \<or>
   (\<exists>r. oauth e (tokenRequests w) = Responds r \<and> json r = Inl err) \<Longrightarrow>
   refreshToken e now (a, w) = (Inl err, a, w\<lparr>tokenRequests := Suc (tokenRequests w)\<rparr>)"
  by (auto simp: refreshToken_def fetchAPIToken_def Let_def)

lemma refreshToken_counts:
  "tokenRequests (snd (snd (refreshToken e now (a, w)))) = Suc (tokenRequests w)"
  by (simp add: refreshToken_def fetchAPIToken_def Let_def split: reply.splits sum.splits)


section \<open>Properties of paginatedFetchFromCSOD\<close>

lemma usersRequest_pageRequest: "usersRequest u t = pageRequest u t"
  by (simp add: usersRequest_def pageRequest_def fetchRequest_def mergedHeaders_def)

lemma tokenOrGet_Some [simp]: "tokenOrGet e now (Some t) s = (Inr t, s)"
  by (simp add: tokenOrGet_def)

lemma requestUri_Some [simp]: "requestUri e u (Some c) = u"
  by (simp add: requestUri_def)

lemma orEmpty_Some [simp]: "orEmpty (Some c) = c"
  by (simp add: orEmpty_def)

lemma paginated_token_error:
  "tokenOrGet e now tok s = (Inl err, s1) \<Longrightarrow>
   paginatedFetchFromCSOD e now up c tok s = Some (Inl err, s1)"
  by (subst paginatedFetchFromCSOD.simps) simp

lemma paginated_with_token:
  "tokenOrGet e now tok s = (Inr t, s1) \<Longrightarrow>
   paginatedFetchFromCSOD e now up c tok s = paginatedFetchFromCSOD e now up c (Some t) s1"
  by (subst (1 2) paginatedFetchFromCSOD.simps) (simp split: prod.splits)

lemma paginated_fetch_fails:
  "apiFetch (transport e) (requestUri e up c) [(''Authorization'', t)] None (Some GET) 0 w =
     (Inl f, w') \<Longrightarrow>
   paginatedFetchFromCSOD e now up c (Some t) (a, w) = Some (Inr (orEmpty c), a, w')"
  by (subst paginatedFetchFromCSOD.simps) simp

lemma paginated_last_page:
  "apiFetch (transport e) (requestUri e up c) [(''Authorization'', t)] None (Some GET) 0 w =
     (Inr p, w') \<Longrightarrow> \<not> truthy (odata_nextLink p) \<Longrightarrow>
   paginatedFetchFromCSOD e now up c (Some t) (a, w) =
     Some (Inr (orEmpty c @ odata_value p), a, w')"
  by (subst paginatedFetchFromCSOD.simps) (simp add: truthy_def split: option.splits)

lemma paginated_next_page:
  "apiFetch (transport e) (requestUri e up c) [(''Authorization'', t)] None (Some GET) 0 w =
     (Inr p, w') \<Longrightarrow> truthy (odata_nextLink p) \<Longrightarrow>
   paginatedFetchFromCSOD e now up c (Some t) (a, w) =
     paginatedFetchFromCSOD e now (linkOf p) (Some (orEmpty c @ odata_value p)) (Some t) (a, w')"
  by (subst paginatedFetchFromCSOD.simps)
     (auto simp: truthy_def linkOf_def split: option.splits)

lemma apiFetch_page:
  "servesPage (tr (length (issued w)) (pageRequest u t)) p \<Longrightarrow>
   apiFetch tr u [(''Authorization'', t)] None (Some GET) 0 w =
     (Inr p, sent w [0] [pageRequest u t])"
  unfolding pageRequest_def
  by (auto simp: servesPage_def split: reply.splits intro: apiFetch_200)

lemma afterPages_Nil [simp]: "afterPages w t u [] = w"
  by (simp add: afterPages_def)

lemma afterPages_Cons:
  "afterPages w t u (p # ps) = afterPages (sent w [0] [pageRequest u t]) t (linkOf p) ps"
  by (simp add: afterPages_def)

lemma length_pageUris [simp]: "length (pageUris u ps) = length ps"
  by (induction ps arbitrary: u) simp_all

lemma issued_afterPages: "length (issued (afterPages w t u ps)) = length (issued w) + length ps"
  by (simp add: afterPages_def)

lemma paginated_pages_then:
  "servesPages (transport e) t (length (issued w)) u ps \<Longrightarrow>
   \<forall>p\<in>set ps. truthy (odata_nextLink p) \<Longrightarrow>
   paginatedFetchFromCSOD e now u (Some c) (Some t) (a, w) =
   paginatedFetchFromCSOD e now (linkAfter u ps) (Some (c @ concat (map odata_value ps)))
     (Some t) (a, afterPages w t u ps)"
proof (induction ps arbitrary: u c w)
  case Nil
  then show ?case by simp
next
  case (Cons p ps)
  let ?w1 = "sent w [0] [pageRequest u t]"
  from Cons.prems(1)
  have page: "servesPage (transport e (length (issued w)) (pageRequest u t)) p"
    by simp
  have rest: "servesPages (transport e) t (length (issued ?w1)) (linkOf p) ps"
    using Cons.prems(1) by (cases ps) auto
  have "paginatedFetchFromCSOD e now u (Some c) (Some t) (a, w) =
        paginatedFetchFromCSOD e now (linkOf p) (Some (c @ odata_value p)) (Some t) (a, ?w1)"
    using apiFetch_page [where tr = "transport e", OF page] Cons.prems(2)
    by (subst paginated_next_page [where p = p and w' = ?w1]) simp_all
  also have "\<dots> = paginatedFetchFromCSOD e now (linkAfter (linkOf p) ps)
        (Some ((c @ odata_value p) @ concat (map odata_value ps))) (Some t)
        (a, afterPages ?w1 t (linkOf p) ps)"
    using rest Cons.prems(2) by (intro Cons.IH) simp_all
  finally show ?case
    by (simp add: afterPages_Cons)
qed

lemma servesPages_append:
  "servesPages tr t n u (ps @ [q]) \<Longrightarrow>
   servesPages tr t n u ps \<and> (\<forall>p\<in>set ps. truthy (odata_nextLink p)) \<and>
   servesPage (tr (n + length ps) (pageRequest (linkAfter u ps) t)) q"
proof (induction ps arbitrary: n u)
  case Nil
  then show ?case by simp
next
  case (Cons p ps)
  from Cons.prems have p: "servesPage (tr n (pageRequest u t)) p" "truthy (odata_nextLink p)"
    and rest: "servesPages tr t (Suc n) (linkOf p) (ps @ [q])"
    by auto
  from Cons.IH [OF rest] p show ?case
    by (cases ps) auto
qed

lemma paginated_init:
  "paginatedFetchFromCSOD e now up c (Some t) s =
   paginatedFetchFromCSOD e now (requestUri e up c) (Some (orEmpty c)) (Some t) s"
  by (subst (1 2) paginatedFetchFromCSOD.simps) (simp split: prod.splits sum.splits)

lemma pageUris_snoc: "pageUris u (ps @ [q]) = pageUris u ps @ [linkAfter u ps]"
  by (induction ps arbitrary: u) simp_all

lemma afterPages_snoc:
  "afterPages w t u (ps @ [q]) = sent (afterPages w t u ps) [0] [pageRequest (linkAfter u ps) t]"
  by (simp add: afterPages_def pageUris_snoc replicate_append_same [symmetric])

lemma site_first_token:
  "tokenOrGet (site numbered tr) 0 None (unset, emptyWorld) =
     (Inr ''Bearer first'', firstToken, emptyWorld\<lparr>tokenRequests := 1\<rparr>)"
  by (simp add: tokenOrGet_def apiToken_get_def refreshToken_def fetchAPIToken_def site_def
      numbered_def tokenReply_def noLatency_def Let_def setSeconds_plus15 UTC_def LocalTime_def
      utcZone_def unset_def emptyWorld_def firstToken_def)

lemma uri_fetchRequest [simp]: "uri (fetchRequest u hs p m) = u"
  by (simp add: fetchRequest_def)

lemma apiFetch_uriServer:
  fixes srv :: "string \<Rightarrow> 'b reply" and w w' :: "'p world"
  shows "fst (apiFetch (uriServer srv) u hs p m d w) =
         fst (apiFetch (uriServer srv) u hs' p' m' d w')"
proof -
  let ?tr = "uriServer srv :: ('p, 'b) transport"
  have "\<forall>w'. fst (apiFetch ?tr u hs p m d w) = fst (apiFetch ?tr u hs' p' m' d w')"
  proof (induction d w rule: apiFetch_retry_induct
      [where tr = ?tr and u = u and hs = hs and p = p and m = m])
    case (step d w)
    have same: "?tr (length (issued w')) (fetchRequest u hs' p' m') =
                ?tr (length (issued w)) (fetchRequest u hs p m)" for w' :: "'p world"
      by (simp add: uriServer_def)
    show ?case
    proof (intro allI)
      fix w'
      show "fst (apiFetch ?tr u hs p m d w) = fst (apiFetch ?tr u hs' p' m' d w')"
      proof (cases rule: apiFetch_cases [of ?tr w u hs p m d])
        case (throws e)
        with same [of w'] show ?thesis
          by (simp add: apiFetch_throws)
      next
        case (malformed r e)
        with same [of w'] show ?thesis
          by (simp add: apiFetch_malformed)
      next
        case (success r b)
        with same [of w'] show ?thesis
          by (simp add: apiFetch_200)
      next
        case (bad r b)
        with same [of w'] show ?thesis
          by (simp add: apiFetch_bad)
      next
        case exhausted
        with same [of w'] show ?thesis
          by (simp add: apiFetch_gaveUp)
      next
        case retry
        from retry(1) same [of w']
        have "rateLimited (?tr (length (issued w')) (fetchRequest u hs' p' m'))"
          by simp
        then have "apiFetch ?tr u hs' p' m' d w' =
                   apiFetch ?tr u hs' p' m' (d + 15) (sent w' [d] [fetchRequest u hs' p' m'])"
          using retry(2) by (rule apiFetch_429)
        with step [OF retry(1,2)] retry(3) show ?thesis
          by simp
      qed
    qed
  qed
  then show ?thesis ..
qed

lemma apiFetch_uriServer_result:
  fixes srv :: "string \<Rightarrow> 'b reply" and w w' :: "'p world"
  assumes "apiFetch (uriServer srv) u hs p m d w = (r, w1)"
  obtains w1' where "apiFetch (uriServer srv) u hs' p m d w' = (r, w1')"
proof -
  have "fst (apiFetch (uriServer srv) u hs' p m d w') = r"
    using apiFetch_uriServer [of srv u hs' p m d w' hs p m w] assms by simp
  then show thesis
    by (cases "apiFetch (uriServer srv) u hs' p m d w'") (auto intro: that)
qed

lemma paginated_repeat:
  fixes e :: "('p, 'a ODataResponse) env"
  assumes "paginatedFetchFromCSOD e now up c tok s = Some y"
  shows "transport e = uriServer srv \<longrightarrow>
         (\<forall>t. tok = Some t \<longrightarrow>
           (\<forall>now' t' s'. \<exists>s2. paginatedFetchFromCSOD e now' up c (Some t') s' = Some (fst y, s2)))"
  using assms
proof (induction rule: paginatedFetchFromCSOD.raw_induct)
  case (1 pag e now up c tok s y)
  show ?case
  proof (intro impI allI)
    fix t now' t' and s' :: "apiToken \<times> 'p world"
    assume tr: "transport e = uriServer srv" and tok: "tok = Some t"
    obtain a w where s: "s = (a, w)" by (cases s)
    obtain a' w' where s': "s' = (a', w')" by (cases s')
    let ?u = "requestUri e up c"
    obtain r w1 where fetch: "apiFetch (uriServer srv) ?u [(''Authorization'', t)] None
                                (Some GET) 0 w = (r, w1)"
      by (cases "apiFetch (uriServer srv) ?u [(''Authorization'', t)] None (Some GET) 0 w")
    then obtain w1' where fetch': "apiFetch (uriServer srv) ?u [(''Authorization'', t')] None
                                     (Some GET) 0 w' = (r, w1')"
      by (rule apiFetch_uriServer_result)
    show "\<exists>s2. paginatedFetchFromCSOD e now' up c (Some t') s' = Some (fst y, s2)"
    proof (cases r)
      case (Inl f)
      with "1.hyps" tok s tr fetch have "fst y = Inr (orEmpty c)"
        by auto
      moreover have "paginatedFetchFromCSOD e now' up c (Some t') (a', w') =
                     Some (Inr (orEmpty c), a', w1')"
        using fetch' Inl tr by (intro paginated_fetch_fails [where f = f]) simp
      ultimately show ?thesis
        using s' by simp
    next
      case (Inr p)
      show ?thesis
      proof (cases "truthy (odata_nextLink p)")
        case False
        with "1.hyps" tok s tr fetch Inr have "fst y = Inr (orEmpty c @ odata_value p)"
          by (auto simp: truthy_def split: option.splits if_splits)
        moreover have "paginatedFetchFromCSOD e now' up c (Some t') (a', w') =
                       Some (Inr (orEmpty c @ odata_value p), a', w1')"
          using fetch' Inr tr False by (intro paginated_last_page) simp_all
        ultimately show ?thesis
          using s' by simp
      next
        case True
        with "1.hyps" tok s tr fetch Inr
        have approx: "pag e now (linkOf p) (Some (orEmpty c @ odata_value p)) (Some t) (a, w1) =
                      Some y"
          by (auto simp: truthy_def linkOf_def split: option.splits if_splits)
        have "paginatedFetchFromCSOD e now up c (Some t) (a, w) =
              paginatedFetchFromCSOD e now (linkOf p)
                (Some (orEmpty c @ odata_value p)) (Some t) (a, w1)"
          using fetch Inr tr True by (intro paginated_next_page) simp_all
        with "1.prems" tok s
        have real: "paginatedFetchFromCSOD e now (linkOf p)
                      (Some (orEmpty c @ odata_value p)) (Some t) (a, w1) = Some y"
          by simp
        from "1.IH" [OF approx real] tr
        obtain s2 where "paginatedFetchFromCSOD e now' (linkOf p)
                           (Some (orEmpty c @ odata_value p)) (Some t') (a', w1') = Some (fst y, s2)"
          by blast
        moreover have "paginatedFetchFromCSOD e now' up c (Some t') (a', w') =
                       paginatedFetchFromCSOD e now' (linkOf p)
                         (Some (orEmpty c @ odata_value p)) (Some t') (a', w1')"
          using fetch' Inr tr True by (intro paginated_next_page) simp_all
        ultimately show ?thesis
          using s' by simp
      qed
    qed
  qed
qed (rule assms)

lemma paginated_walk:
  assumes "servesPages (transport e) t (length (issued w)) u (ps @ [q])"
    and "\<not> truthy (odata_nextLink q)"
  shows "paginatedFetchFromCSOD e now u (Some c) (Some t) (a, w) =
         Some (Inr (c @ concat (map odata_value (ps @ [q]))), a, afterPages w t u (ps @ [q]))"
proof -
  let ?w = "afterPages w t u ps"
  from servesPages_append [OF assms(1)]
  have pages: "servesPages (transport e) t (length (issued w)) u ps"
    and links: "\<forall>p\<in>set ps. truthy (odata_nextLink p)"
    and final: "servesPage (transport e (length (issued w) + length ps)
                  (pageRequest (linkAfter u ps) t)) q"
    by simp_all
  from final have "servesPage (transport e (length (issued ?w)) (pageRequest (linkAfter u ps) t)) q"
    by (simp add: issued_afterPages)
  then have fetch: "apiFetch (transport e) (linkAfter u ps) [(''Authorization'', t)] None
                      (Some GET) 0 ?w = (Inr q, sent ?w [0] [pageRequest (linkAfter u ps) t])"
    by (rule apiFetch_page [where tr = "transport e"])
  have "paginatedFetchFromCSOD e now u (Some c) (Some t) (a, w) =
        paginatedFetchFromCSOD e now (linkAfter u ps) (Some (c @ concat (map odata_value ps)))
          (Some t) (a, ?w)"
    using pages links by (rule paginated_pages_then)
  also have "\<dots> = Some (Inr ((c @ concat (map odata_value ps)) @ odata_value q), a,
                        sent ?w [0] [pageRequest (linkAfter u ps) t])"
    using fetch assms(2)
      paginated_last_page [where e = e and up = "linkAfter u ps" and p = q and w = ?w
        and c = "Some (c @ concat (map odata_value ps))"]
    by simp
  finally show ?thesis
    by (simp add: afterPages_snoc)
qed

lemma servesPages_uriServer: "servesPages (uriServer srv) t n u ps = chain srv u ps"
  by (induction ps arbitrary: n u) (simp_all add: uriServer_def pageRequest_def)

lemma paginated_uri_walk_ends:
  fixes e :: "('p, 'a ODataResponse) env"
  assumes "transport e = uriServer srv"
    and "tokenOrGet e now tok s = (Inr t, s1)"
    and "chain srv (requestUri e up c) (ps @ [q])"
    and "\<not> truthy (odata_nextLink q)"
  shows "map_option fst (paginatedFetchFromCSOD e now up c tok s) =
         Some (Inr (orEmpty c @ concat (map odata_value (ps @ [q]))))"
proof -
  obtain a w where s1: "s1 = (a, w)" by (cases s1)
  let ?u = "requestUri e up c"
  have "servesPages (transport e) t (length (issued w)) ?u (ps @ [q])"
    using assms(1,3) by (simp add: servesPages_uriServer)
  then have "paginatedFetchFromCSOD e now ?u (Some (orEmpty c)) (Some t) (a, w) =
        Some (Inr (orEmpty c @ concat (map odata_value (ps @ [q]))), a,
              afterPages w t ?u (ps @ [q]))"
    using assms(4) by (rule paginated_walk)
  moreover have "paginatedFetchFromCSOD e now up c tok s =
        paginatedFetchFromCSOD e now up c (Some t) (a, w)"
    using assms(2) unfolding s1 by (rule paginated_with_token)
  moreover have "paginatedFetchFromCSOD e now up c (Some t) (a, w) =
        paginatedFetchFromCSOD e now ?u (Some (orEmpty c)) (Some t) (a, w)"
    by (rule paginated_init)
  ultimately show ?thesis
    by simp
qed

lemma paginated_uri_walk_fails:
  fixes e :: "('p, 'a ODataResponse) env" and w0 :: "'p world"
  assumes "transport e = uriServer srv"
    and "tokenOrGet e now tok s = (Inr t, s1)"
    and "chain srv (requestUri e up c) ps"
    and "\<forall>p\<in>set ps. truthy (odata_nextLink p)"
    and "fst (apiFetch (uriServer srv) (linkAfter (requestUri e up c) ps) hs0 None (Some GET) 0 w0)
           = Inl f"
  shows "map_option fst (paginatedFetchFromCSOD e now up c tok s) =
         Some (Inr (orEmpty c @ concat (map odata_value ps)))"
proof -
  obtain a w where s1: "s1 = (a, w)" by (cases s1)
  let ?u = "requestUri e up c"
  let ?w = "afterPages w t ?u ps"
  have "fst (apiFetch (uriServer srv) (linkAfter ?u ps) [(''Authorization'', t)] None (Some GET)
          0 ?w) = Inl f"
    using assms(5)
      apiFetch_uriServer [of srv "linkAfter ?u ps" "[(''Authorization'', t)]" None "Some GET" 0 ?w
        hs0 None "Some GET" w0]
    by simp
  then obtain w' where fails: "apiFetch (transport e) (linkAfter ?u ps) [(''Authorization'', t)]
                                 None (Some GET) 0 ?w = (Inl f, w')"
    using assms(1)
    by (cases "apiFetch (uriServer srv) (linkAfter ?u ps) [(''Authorization'', t)] None
                 (Some GET) 0 ?w") auto
  have "servesPages (transport e) t (length (issued w)) ?u ps"
    using assms(1,3) by (simp add: servesPages_uriServer)
  then have "paginatedFetchFromCSOD e now ?u (Some (orEmpty c)) (Some t) (a, w) =
        paginatedFetchFromCSOD e now (linkAfter ?u ps)
          (Some (orEmpty c @ concat (map odata_value ps))) (Some t) (a, ?w)"
    using assms(4) by (rule paginated_pages_then)
  moreover have "paginatedFetchFromCSOD e now (linkAfter ?u ps)
          (Some (orEmpty c @ concat (map odata_value ps))) (Some t) (a, ?w) =
        Some (Inr (orEmpty c @ concat (map odata_value ps)), a, w')"
    using fails
      paginated_fetch_fails [where e = e and up = "linkAfter ?u ps" and f = f
        and c = "Some (orEmpty c @ concat (map odata_value ps))"]
    by simp
  moreover have "paginatedFetchFromCSOD e now up c tok s =
        paginatedFetchFromCSOD e now up c (Some t) (a, w)"
    using assms(2) unfolding s1 by (rule paginated_with_token)
  moreover have "paginatedFetchFromCSOD e now up c (Some t) (a, w) =
        paginatedFetchFromCSOD e now ?u (Some (orEmpty c)) (Some t) (a, w)"
    by (rule paginated_init)
  ultimately show ?thesis
    by simp
qed

section \<open>Properties of getAllUsers\<close>

lemma linkOrUndefined_truthy: "truthy (odata_nextLink p) \<Longrightarrow> linkOrUndefined p = linkOf p"
  by (simp add: linkOrUndefined_def linkOf_def truthy_def split: option.splits)

lemma getAllUsers_loop_short:
  "servesPage (tr (length (issued w)) (pageRequest u t)) p \<Longrightarrow> length (odata_value p) < 1000 \<Longrightarrow>
   getAllUsers_loop tr t u acc w = Some (Inr (acc @ odata_value p), sent w [] [pageRequest u t])"
  by (subst getAllUsers_loop.simps)
     (auto simp: servesPage_def usersRequest_pageRequest sent_def Let_def split: reply.splits)

lemma getAllUsers_loop_full:
  "servesPage (tr (length (issued w)) (pageRequest u t)) p \<Longrightarrow> 1000 \<le> length (odata_value p) \<Longrightarrow>
   getAllUsers_loop tr t u acc w =
   getAllUsers_loop tr t (linkOrUndefined p) (acc @ odata_value p) (sent w [] [pageRequest u t])"
  by (subst getAllUsers_loop.simps)
     (auto simp: servesPage_def usersRequest_pageRequest sent_def Let_def linkOrUndefined_def
           split: reply.splits)

lemma getAllUsers_pages_then:
  "servesPages tr t (length (issued w)) u ps \<Longrightarrow>
   \<forall>p\<in>set ps. truthy (odata_nextLink p) \<and> 1000 \<le> length (odata_value p) \<Longrightarrow>
   getAllUsers_loop tr t u acc w =
   getAllUsers_loop tr t (linkAfter u ps) (acc @ concat (map odata_value ps))
     (sent w [] (map (\<lambda>x. pageRequest x t) (pageUris u ps)))"
proof (induction ps arbitrary: u acc w)
  case Nil
  then show ?case by simp
next
  case (Cons p ps)
  let ?w1 = "sent w [] [pageRequest u t]"
  from Cons.prems(1)
  have page: "servesPage (tr (length (issued w)) (pageRequest u t)) p"
    by simp
  have rest: "servesPages tr t (length (issued ?w1)) (linkOf p) ps"
    using Cons.prems(1) by (cases ps) auto
  from Cons.prems(2) have full: "1000 \<le> length (odata_value p)" and link: "truthy (odata_nextLink p)"
    by simp_all
  have "getAllUsers_loop tr t u acc w =
        getAllUsers_loop tr t (linkOf p) (acc @ odata_value p) ?w1"
    using getAllUsers_loop_full [where tr = tr, OF page full] linkOrUndefined_truthy [OF link]
    by simp
  also have "\<dots> = getAllUsers_loop tr t (linkAfter (linkOf p) ps)
        ((acc @ odata_value p) @ concat (map odata_value ps))
        (sent ?w1 [] (map (\<lambda>x. pageRequest x t) (pageUris (linkOf p) ps)))"
    using rest Cons.prems(2) by (intro Cons.IH) simp_all
  finally show ?case
    by simp
qed

lemma getAllUsers_walk:
  assumes "servesPages tr t (length (issued w)) u (ps @ [q])"
    and "\<forall>p\<in>set ps. 1000 \<le> length (odata_value p)"
    and "length (odata_value q) < 1000"
  shows "getAllUsers_loop tr t u acc w =
         Some (Inr (acc @ concat (map odata_value (ps @ [q]))),
               sent w [] (map (\<lambda>x. pageRequest x t) (pageUris u (ps @ [q]))))"
proof -
  let ?w = "sent w [] (map (\<lambda>x. pageRequest x t) (pageUris u ps))"
  from servesPages_append [OF assms(1)]
  have pages: "servesPages tr t (length (issued w)) u ps"
    and links: "\<forall>p\<in>set ps. truthy (odata_nextLink p)"
    and final: "servesPage (tr (length (issued w) + length ps) (pageRequest (linkAfter u ps) t)) q"
    by simp_all
  from final have final': "servesPage (tr (length (issued ?w)) (pageRequest (linkAfter u ps) t)) q"
    by simp
  have "getAllUsers_loop tr t u acc w =
        getAllUsers_loop tr t (linkAfter u ps) (acc @ concat (map odata_value ps)) ?w"
    using pages links assms(2) by (intro getAllUsers_pages_then) simp_all
  also have "\<dots> = Some (Inr ((acc @ concat (map odata_value ps)) @ odata_value q),
                        sent ?w [] [pageRequest (linkAfter u ps) t])"
    using final' assms(3) by (rule getAllUsers_loop_short [where tr = tr])
  finally show ?thesis
    by (simp add: pageUris_snoc)
qed

lemma getAllUsers_usersView:
  "getAllUsers host tr t w = getAllUsers_loop tr t (host @ usersView) [] w"
  by (simp add: getAllUsers_def usersView_def)

section \<open>C1: the backoff of apiFetch\<close>

text \<open>
  C1, as stated, fails. Against a server that answers 429 every time, a call sleeps
  0, 15, 30, 45, 60 and 75 seconds and sends six requests, not five: the test
  \<open>delay <= 60\<close> still holds at 60, so the attempt after the 60-second delay is followed by
  one more.
\<close>

theorem apiFetch_six_attempts:
  "slept (snd (apiFetch always429 ''/x'' [] None None 0 emptyWorld)) = [0, 15, 30, 45, 60, 75]
   \<and> \<not> length (issued (snd (apiFetch always429 ''/x'' [] None None 0 emptyWorld))) \<le> 5"
proof -
  have "apiFetch always429 ''/x'' [] None None 0 emptyWorld =
        (Inl gaveUp,
         sent emptyWorld [0, 15, 30, 45, 60, 75] (replicate 6 (fetchRequest ''/x'' [] None None)))"
    by (rule apiFetch_exhausted) (simp add: always429_def replyWith_def rateLimited_def)
  then show ?thesis
    by (simp add: emptyWorld_def)
qed

text \<open>
  C1, amended. When the first six replies to a call are rate limited, the call sends the
  same request six times, after delays of 0, 15, 30, 45, 60 and 75 seconds, and returns
  the gave-up failure. When instead the first \<open>k < 6\<close> replies are rate limited and the
  next one has status 200 and a body that parses, the call returns that body, having sent
  the same request \<open>k + 1\<close> times. Whatever the server does, a call sends at most six
  requests.
\<close>

theorem apiFetch_backoff:
  "((\<forall>i<6. rateLimited (tr (length (issued w) + i) (fetchRequest u hs p m))) \<longrightarrow>
      apiFetch tr u hs p m 0 w =
        (Inl gaveUp, sent w [0, 15, 30, 45, 60, 75] (replicate 6 (fetchRequest u hs p m))))
   \<and> ((\<forall>i<k. rateLimited (tr (length (issued w) + i) (fetchRequest u hs p m))) \<and> k < 6 \<and>
       tr (length (issued w) + k) (fetchRequest u hs p m) = Responds r \<and>
       status r = 200 \<and> json r = Inr b \<longrightarrow>
      apiFetch tr u hs p m 0 w =
        (Inr b, sent w (delays 0 (Suc k)) (replicate (Suc k) (fetchRequest u hs p m))))
   \<and> length (issued (snd (apiFetch tr u hs p m 0 w))) \<le> length (issued w) + 6"
proof (intro conjI impI)
  assume "\<forall>i<6. rateLimited (tr (length (issued w) + i) (fetchRequest u hs p m))"
  then show "apiFetch tr u hs p m 0 w =
        (Inl gaveUp, sent w [0, 15, 30, 45, 60, 75] (replicate 6 (fetchRequest u hs p m)))"
    by (rule apiFetch_exhausted)
next
  let ?req = "fetchRequest u hs p m"
  let ?wk = "sent w (delays 0 k) (replicate k ?req)"
  assume a: "(\<forall>i<k. rateLimited (tr (length (issued w) + i) ?req)) \<and> k < 6 \<and>
       tr (length (issued w) + k) ?req = Responds r \<and> status r = 200 \<and> json r = Inr b"
  then have "apiFetch tr u hs p m 0 w = apiFetch tr u hs p m (0 + 15 * k) ?wk"
    by (intro apiFetch_retries) simp_all
  moreover have "apiFetch tr u hs p m (15 * k) ?wk = (Inr b, sent ?wk [15 * k] [?req])"
    using a by (intro apiFetch_200 [where r = r]) simp_all
  ultimately show "apiFetch tr u hs p m 0 w =
        (Inr b, sent w (delays 0 (Suc k)) (replicate (Suc k) ?req))"
    by (simp add: delays_snoc replicate_append_same)
next
  show "length (issued (snd (apiFetch tr u hs p m 0 w))) \<le> length (issued w) + 6"
    using apiFetch_attempts [of tr u hs p m 0 w] by simp
qed

text \<open>
  C1, witness: a server that always answers 429, and one that answers 200 on the third
  attempt.
\<close>

theorem apiFetch_backoff_witness:
  "apiFetch always429 ''/x'' [] None None 0 emptyWorld =
     (Inl gaveUp,
      sent emptyWorld [0, 15, 30, 45, 60, 75] (replicate 6 (fetchRequest ''/x'' [] None None)))
   \<and> apiFetch (okAfter 2) ''/x'' [] None None 0 emptyWorld =
     (Inr ''done'',
      sent emptyWorld [0, 15, 30] (replicate 3 (fetchRequest ''/x'' [] None None)))"
  using apiFetch_backoff [of always429 emptyWorld "''/x''" "[]" None None 0 undefined undefined]
    apiFetch_backoff [of "okAfter 2" emptyWorld "''/x''" "[]" None None 2
       "\<lparr>status = 200, statusText = [], json = Inr ''done''\<rparr>" "''done''"]
  by (simp add: always429_def okAfter_def replyWith_def rateLimited_def emptyWorld_def
      delays_def upt_rec numeral_eq_Suc)

section \<open>C2: the two pagination flavours\<close>

text \<open>
  C2, as stated, fails: \<open>getAllUsers\<close> does not look at the next link to decide when to
  stop. Its test is \<open>users.length < 1000\<close>. With a first page of one row that carries a
  next link, \<open>getAllUsers\<close> returns after that page, while \<open>paginatedFetchFromCSOD\<close>
  follows the link and returns both pages.
\<close>

theorem getAllUsers_stops_on_short_page:
  "getAllUsers (CSOD_API_HOST shortPages) (transport shortPages) ''Bearer first'' emptyWorld =
     Some (Inr [''a''],
           sent emptyWorld [] [pageRequest (''https://csod'' @ usersView) ''Bearer first''])
   \<and> truthy (odata_nextLink (page [''a''] (Some ''U2'')))
   \<and> paginatedFetchFromCSOD shortPages 0 usersView None (Some ''Bearer first'')
       (unset, emptyWorld) =
     Some (Inr [''a'', ''b''], unset,
           sent emptyWorld [0, 0]
             [pageRequest (''https://csod'' @ usersView) ''Bearer first'',
              pageRequest ''U2'' ''Bearer first''])"
proof (intro conjI)
  let ?u = "''https://csod'' @ usersView"
  have "servesPage (transport shortPages (length (issued (emptyWorld :: unit world)))
          (pageRequest ?u ''Bearer first'')) (page [''a''] (Some ''U2''))"
    by (simp add: shortPages_def site_def answers_def replyWith_def servesPage_def emptyWorld_def)
  then have "getAllUsers_loop (transport shortPages) ''Bearer first'' ?u [] emptyWorld =
             Some (Inr ([] @ odata_value (page [''a''] (Some ''U2''))),
                   sent emptyWorld [] [pageRequest ?u ''Bearer first''])"
    by (rule getAllUsers_loop_short [where tr = "transport shortPages"]) (simp add: page_def)
  then show "getAllUsers (CSOD_API_HOST shortPages) (transport shortPages) ''Bearer first''
               emptyWorld =
             Some (Inr [''a''], sent emptyWorld [] [pageRequest ?u ''Bearer first''])"
    by (simp add: getAllUsers_usersView shortPages_def site_def page_def)
next
  show "truthy (odata_nextLink (page [''a''] (Some ''U2'')))"
    by (simp add: truthy_def page_def)
next
  let ?u = "''https://csod'' @ usersView"
  have "servesPages (transport shortPages) ''Bearer first''
          (length (issued (emptyWorld :: unit world))) ?u
          ([page [''a''] (Some ''U2'')] @ [page [''b''] None])"
    by (simp add: shortPages_def site_def answers_def replyWith_def servesPage_def truthy_def
        linkOf_def page_def emptyWorld_def)
  moreover have "\<not> truthy (odata_nextLink (page [''b''] None))"
    by (simp add: truthy_def page_def)
  ultimately
  have "paginatedFetchFromCSOD shortPages 0 ?u (Some []) (Some ''Bearer first'')
          (unset, emptyWorld) =
        Some (Inr ([] @ concat (map odata_value ([page [''a''] (Some ''U2'')] @ [page [''b''] None]))),
              unset,
              afterPages emptyWorld ''Bearer first'' ?u
                ([page [''a''] (Some ''U2'')] @ [page [''b''] None]))"
    by (rule paginated_walk)
  moreover have "paginatedFetchFromCSOD shortPages 0 usersView None (Some ''Bearer first'')
          (unset, emptyWorld) =
        paginatedFetchFromCSOD shortPages 0 ?u (Some []) (Some ''Bearer first'')
          (unset, emptyWorld)"
    by (subst paginated_init) (simp add: requestUri_def orEmpty_def shortPages_def site_def)
  ultimately show "paginatedFetchFromCSOD shortPages 0 usersView None (Some ''Bearer first'')
       (unset, emptyWorld) =
     Some (Inr [''a'', ''b''], unset,
           sent emptyWorld [0, 0]
             [pageRequest ?u ''Bearer first'', pageRequest ''U2'' ''Bearer first''])"
    by (simp add: afterPages_def page_def linkOf_def)
qed

text \<open>
  C2, amended. Both flavours accumulate the value arrays of the pages in response order,
  and each stops on its own test. When the server serves the pages \<open>ps\<close> and then \<open>q\<close>:
  if \<open>q\<close> carries no next link, \<open>paginatedFetchFromCSOD\<close> returns the concatenation of all
  of them, whatever their sizes; if every page of \<open>ps\<close> has at least 1000 rows and \<open>q\<close> has
  fewer, \<open>getAllUsers\<close> returns the concatenation of all of them, whether or not \<open>q\<close>
  carries a next link. Where both conditions hold the two flavours return the same
  collection.
\<close>

theorem pagination_flavours:
  assumes "servesPages (transport e) t (length (issued w)) (CSOD_API_HOST e @ usersView) (ps @ [q])"
  shows "(\<not> truthy (odata_nextLink q) \<longrightarrow>
            paginatedFetchFromCSOD e now usersView None (Some t) (a, w) =
              Some (Inr (concat (map odata_value (ps @ [q]))), a,
                    afterPages w t (CSOD_API_HOST e @ usersView) (ps @ [q])))
         \<and> ((\<forall>p\<in>set ps. 1000 \<le> length (odata_value p)) \<and> length (odata_value q) < 1000 \<longrightarrow>
            getAllUsers (CSOD_API_HOST e) (transport e) t w =
              Some (Inr (concat (map odata_value (ps @ [q]))),
                    sent w [] (map (\<lambda>x. pageRequest x t)
                                 (pageUris (CSOD_API_HOST e @ usersView) (ps @ [q])))))"
proof (intro conjI impI)
  let ?u = "CSOD_API_HOST e @ usersView"
  assume "\<not> truthy (odata_nextLink q)"
  with assms
  have "paginatedFetchFromCSOD e now ?u (Some []) (Some t) (a, w) =
        Some (Inr ([] @ concat (map odata_value (ps @ [q]))), a, afterPages w t ?u (ps @ [q]))"
    by (rule paginated_walk)
  moreover have "paginatedFetchFromCSOD e now usersView None (Some t) (a, w) =
                 paginatedFetchFromCSOD e now ?u (Some []) (Some t) (a, w)"
    by (subst paginated_init) (simp add: requestUri_def orEmpty_def)
  ultimately show "paginatedFetchFromCSOD e now usersView None (Some t) (a, w) =
              Some (Inr (concat (map odata_value (ps @ [q]))), a, afterPages w t ?u (ps @ [q]))"
    by simp
next
  let ?u = "CSOD_API_HOST e @ usersView"
  assume "(\<forall>p\<in>set ps. 1000 \<le> length (odata_value p)) \<and> length (odata_value q) < 1000"
  then have full: "\<forall>p\<in>set ps. 1000 \<le> length (odata_value p)"
    and short: "length (odata_value q) < 1000"
    by simp_all
  from getAllUsers_walk [OF assms full short, of "[]"]
  show "getAllUsers (CSOD_API_HOST e) (transport e) t w =
              Some (Inr (concat (map odata_value (ps @ [q]))),
                    sent w [] (map (\<lambda>x. pageRequest x t) (pageUris ?u (ps @ [q]))))"
    by (simp add: getAllUsers_usersView)
qed

text \<open>
  C2, witness: a page of 1000 rows with a next link, then a page of one row without.
\<close>

theorem pagination_flavours_witness:
  "paginatedFetchFromCSOD fullThenShort 0 usersView None (Some ''Bearer first'')
     (unset, emptyWorld) =
     Some (Inr (replicate 1000 ''u'' @ [''v'']), unset,
           afterPages emptyWorld ''Bearer first'' (''https://csod'' @ usersView)
             [page (replicate 1000 ''u'') (Some ''U2''), page [''v''] None])
   \<and> getAllUsers (CSOD_API_HOST fullThenShort) (transport fullThenShort) ''Bearer first''
       emptyWorld =
     Some (Inr (replicate 1000 ''u'' @ [''v'']),
           sent emptyWorld []
             [pageRequest (''https://csod'' @ usersView) ''Bearer first'',
              pageRequest ''U2'' ''Bearer first''])"
proof -
  have host: "CSOD_API_HOST fullThenShort = ''https://csod''"
    by (simp add: fullThenShort_def site_def)
  have pages: "servesPages (transport fullThenShort) ''Bearer first''
          (length (issued (emptyWorld :: unit world))) (CSOD_API_HOST fullThenShort @ usersView)
          ([page (replicate 1000 ''u'') (Some ''U2'')] @ [page [''v''] None])"
    by (simp add: fullThenShort_def site_def answers_def replyWith_def servesPage_def truthy_def
        linkOf_def page_def emptyWorld_def)
  from pagination_flavours [OF pages, of 0 unset] show ?thesis
    by (simp add: host truthy_def page_def linkOf_def)
qed

section \<open>C3: how apiFetch classifies a reply\<close>

text \<open>
  C3. A call of \<open>apiFetch\<close>, at whatever delay, whose reply has a status other than 429 and
  a body that parses to \<open>b\<close> sends that one request and returns: \<open>b\<close> itself as the success
  when the status is 200, and otherwise the failure record that carries the status as
  \<open>code\<close> and \<open>b\<close> as \<open>body\<close>. The retries are such calls, so the same holds for the first
  reply that is not a 429 when \<open>k\<close> rate limited replies come before it and the backoff is
  still running (\<open>d + 15 * k \<le> 75\<close>; from the default delay 0 that is \<open>k \<le> 5\<close>): the
  request it answers is the last one sent, \<open>k + 1\<close> in all.
\<close>

theorem apiFetch_classifies:
  fixes tr :: "('p, 'b) transport"
  shows
    "(tr (length (issued w)) (fetchRequest u hs p m) = Responds r \<and> json r = Inr b \<and>
      status r \<noteq> 429 \<longrightarrow>
        apiFetch tr u hs p m d w =
          (if status r = 200 then Inr b
           else Inl \<lparr>ok = True, body = Parsed b, code = Some (status r), response = Some r\<rparr>,
           sent w [d] [fetchRequest u hs p m]))
     \<and> ((\<forall>i<k. rateLimited (tr (length (issued w) + i) (fetchRequest u hs p m))) \<and>
         d + 15 * k \<le> 75 \<and>
         tr (length (issued w) + k) (fetchRequest u hs p m) = Responds r' \<and>
         json r' = Inr b' \<and> status r' \<noteq> 429 \<longrightarrow>
        apiFetch tr u hs p m d w =
          (if status r' = 200 then Inr b'
           else Inl \<lparr>ok = True, body = Parsed b', code = Some (status r'),
                     response = Some r'\<rparr>,
           sent w (delays d (Suc k)) (replicate (Suc k) (fetchRequest u hs p m))))"
proof -
  have one: "apiFetch tr u hs p m d' w' =
        (if status x = 200 then Inr y
         else Inl \<lparr>ok = True, body = Parsed y, code = Some (status x), response = Some x\<rparr>,
         sent w' [d'] [fetchRequest u hs p m])"
    if "tr (length (issued w')) (fetchRequest u hs p m) = Responds x" "json x = Inr y"
      "status x \<noteq> 429"
    for d' x y and w' :: "'p world"
  proof (cases "status x = 200")
    case True
    with that show ?thesis
      by (simp add: apiFetch_200 [where r = x])
  next
    case False
    with that show ?thesis
      by (simp add: apiFetch_bad [where r = x] badResponse_def)
  qed
  show ?thesis
  proof (intro conjI impI)
    assume "tr (length (issued w)) (fetchRequest u hs p m) = Responds r \<and> json r = Inr b \<and>
      status r \<noteq> 429"
    then show "apiFetch tr u hs p m d w =
        (if status r = 200 then Inr b
         else Inl \<lparr>ok = True, body = Parsed b, code = Some (status r), response = Some r\<rparr>,
         sent w [d] [fetchRequest u hs p m])"
      by (intro one) simp_all
  next
    let ?req = "fetchRequest u hs p m"
    let ?wk = "sent w (delays d k) (replicate k ?req)"
    assume h: "(\<forall>i<k. rateLimited (tr (length (issued w) + i) ?req)) \<and> d + 15 * k \<le> 75 \<and>
       tr (length (issued w) + k) ?req = Responds r' \<and> json r' = Inr b' \<and> status r' \<noteq> 429"
    then have retries: "\<forall>i<k. rateLimited (tr (length (issued w) + i) ?req)"
      and budget: "d + 15 * k \<le> 75"
      by simp_all
    from h have "apiFetch tr u hs p m (d + 15 * k) ?wk =
        (if status r' = 200 then Inr b'
         else Inl \<lparr>ok = True, body = Parsed b', code = Some (status r'), response = Some r'\<rparr>,
         sent ?wk [d + 15 * k] [?req])"
      by (intro one) simp_all
    with retries budget show "apiFetch tr u hs p m d w =
        (if status r' = 200 then Inr b'
         else Inl \<lparr>ok = True, body = Parsed b', code = Some (status r'), response = Some r'\<rparr>,
         sent w (delays d (Suc k)) (replicate (Suc k) ?req))"
      by (rule apiFetch_after_retries)
  qed
qed

text \<open>
  C3, witness: a 429 followed by a 200, and a 404 that is not retried although a 200
  would have followed.
\<close>

theorem apiFetch_classifies_witness:
  "apiFetch (answers [replyWith 429 ''slow down'', replyWith 200 ''rows'']) ''/x'' [] None
     (Some GET) 0 (emptyWorld :: unit world) =
     (Inr ''rows'',
      sent emptyWorld [0, 15]
        [fetchRequest ''/x'' [] None (Some GET), fetchRequest ''/x'' [] None (Some GET)])
   \<and> apiFetch (answers [replyWith 404 ''no such view'', replyWith 200 ''rows'']) ''/x'' [] None
     (Some GET) 0 (emptyWorld :: unit world) =
     (Inl \<lparr>ok = True, body = Parsed ''no such view'', code = Some 404,
           response = Some \<lparr>status = 404, statusText = [], json = Inr ''no such view''\<rparr>\<rparr>,
      sent emptyWorld [0] [fetchRequest ''/x'' [] None (Some GET)])"
  using
    conjunct2 [OF apiFetch_classifies
      [where tr = "answers [replyWith 429 ''slow down'', replyWith 200 ''rows'']"
        and w = "emptyWorld :: unit world" and u = "''/x''" and hs = "[]" and p = None
        and m = "Some GET" and d = 0 and k = 1
        and r' = "\<lparr>status = 200, statusText = [], json = Inr ''rows''\<rparr>" and b' = "''rows''"]]
    conjunct1 [OF apiFetch_classifies
      [where tr = "answers [replyWith 404 ''no such view'', replyWith 200 ''rows'']"
        and w = "emptyWorld :: unit world" and u = "''/x''" and hs = "[]" and p = None
        and m = "Some GET" and d = 0
        and r = "\<lparr>status = 404, statusText = [], json = Inr ''no such view''\<rparr>"
        and b = "''no such view''"]]
  by (simp add: answers_def replyWith_def rateLimited_def emptyWorld_def delays_def)

section \<open>C4: one issuance per validity window\<close>




section \<open>C5: a failed issuance leaves the cache alone\<close>

text \<open>
  C5, as stated, fails for the replies the specification counts as failures by their
  status. \<open>fetchAPIToken\<close> never reads the status: a 401 whose body parses is taken for a
  token, returned to the caller and cached for 15 seconds. (The body below has the fields
  of \<open>TokenResponse\<close>; the status is the only sign of the failure.)
\<close>

theorem apiToken_get_unauthorized:
  "apiToken_get (site unauthorized (answers [] :: (unit, unit) transport)) 0
     (unset, emptyWorld) =
   (Inr ''Bearer revoked'',
    \<lparr>token = Some ''Bearer revoked'', expiration = Some 15000\<rparr>,
    emptyWorld\<lparr>tokenRequests := 1\<rparr>)"
  by (simp add: apiToken_get_def refreshToken_def fetchAPIToken_def site_def unauthorized_def
      tokenReply_def noLatency_def Let_def setSeconds_plus15 UTC_def LocalTime_def
      utcZone_def unset_def emptyWorld_def)

text \<open>
  C5, amended. When the token request throws (\<open>fetch\<close> rejects, or the body is not JSON),
  the exception reaches the caller of \<open>get\<close>, the variables \<open>token\<close> and \<open>expiration\<close> are
  as before, and any later call of \<open>get\<close> (the clock not running backwards) sends a token
  request again.
\<close>

theorem token_failure_propagates:
  assumes "stale a now"
    and "oauth e (tokenRequests w) = Throws err \<or>
         (\<exists>r. oauth e (tokenRequests w) = Responds r \<and> json r = Inl err)"
  shows "apiToken_get e now (a, w) = (Inl err, a, w\<lparr>tokenRequests := Suc (tokenRequests w)\<rparr>)
         \<and> (\<forall>now' w'. now \<le> now' \<longrightarrow>
               tokenRequests (snd (snd (apiToken_get e now' (a, w')))) = Suc (tokenRequests w'))"
proof (intro conjI allI impI)
  show "apiToken_get e now (a, w) = (Inl err, a, w\<lparr>tokenRequests := Suc (tokenRequests w)\<rparr>)"
    using assms by (simp add: apiToken_get_stale refreshToken_throws)
next
  fix now' :: int and w' :: "'a world"
  assume "now \<le> now'"
  with assms(1) have "stale a now'"
    by (rule stale_later)
  then show "tokenRequests (snd (snd (apiToken_get e now' (a, w')))) = Suc (tokenRequests w')"
    by (simp add: apiToken_get_stale refreshToken_counts)
qed

text \<open>C5, witness: a token endpoint whose host does not resolve.\<close>

theorem token_failure_propagates_witness:
  "apiToken_get (site unreachable (answers [] :: (unit, unit) transport)) 0 (unset, emptyWorld) =
     (Inl (FetchError ''ENOTFOUND''), unset, emptyWorld\<lparr>tokenRequests := 1\<rparr>)
   \<and> tokenRequests (snd (snd (apiToken_get (site unreachable (answers [] :: (unit, unit) transport))
         1 (unset, emptyWorld\<lparr>tokenRequests := 1\<rparr>)))) = 2"
proof -
  have st: "stale unset 0"
    by (simp add: stale_def unset_def)
  have th: "oauth (site unreachable (answers [] :: (unit, unit) transport))
              (tokenRequests (emptyWorld :: unit world)) = Throws (FetchError ''ENOTFOUND'') \<or>
         (\<exists>r. oauth (site unreachable (answers [] :: (unit, unit) transport))
                 (tokenRequests (emptyWorld :: unit world)) = Responds r \<and>
              json r = Inl (FetchError ''ENOTFOUND''))"
    by (simp add: site_def unreachable_def)
  from token_failure_propagates [OF st th] show ?thesis
    by (simp add: emptyWorld_def)
qed

section \<open>C6: a failed fetch ends the walk with what was collected\<close>

text \<open>
  C6. Once the token is there, if the server serves the pages \<open>ps\<close>, each with a next link,
  and the fetch of the page after them fails, with whatever failure record \<open>f\<close>, then
  \<open>paginatedFetchFromCSOD\<close> returns the values of \<open>ps\<close> in order, as a collection and not
  as an exception.
\<close>

theorem paginated_partial:
  assumes "tokenOrGet e now tok s = (Inr t, a, w)"
    and "servesPages (transport e) t (length (issued w)) (requestUri e up c) ps"
    and "\<forall>p\<in>set ps. truthy (odata_nextLink p)"
    and "apiFetch (transport e) (linkAfter (requestUri e up c) ps) [(''Authorization'', t)] None
           (Some GET) 0 (afterPages w t (requestUri e up c) ps) = (Inl f, w')"
  shows "paginatedFetchFromCSOD e now up c tok s =
         Some (Inr (orEmpty c @ concat (map odata_value ps)), a, w')"
proof -
  let ?u = "requestUri e up c"
  have "paginatedFetchFromCSOD e now up c tok s =
        paginatedFetchFromCSOD e now up c (Some t) (a, w)"
    using assms(1) by (rule paginated_with_token)
  also have "\<dots> = paginatedFetchFromCSOD e now ?u (Some (orEmpty c)) (Some t) (a, w)"
    by (rule paginated_init)
  also have "\<dots> = paginatedFetchFromCSOD e now (linkAfter ?u ps)
                     (Some (orEmpty c @ concat (map odata_value ps))) (Some t)
                     (a, afterPages w t ?u ps)"
    using assms(2,3) by (rule paginated_pages_then)
  also have "\<dots> = Some (Inr (orEmpty c @ concat (map odata_value ps)), a, w')"
    using assms(4)
      paginated_fetch_fails [where e = e and up = "linkAfter ?u ps" and f = f
        and c = "Some (orEmpty c @ concat (map odata_value ps))"]
    by simp
  finally show ?thesis .
qed

text \<open>
  C6, witness: the page \<open>[a]\<close> with next link \<open>U2\<close>, then a connection reset on \<open>U2\<close>.
\<close>

theorem paginated_partial_witness:
  "map_option fst
     (paginatedFetchFromCSOD brokenSecondPage 0 ''/view'' None None (unset, emptyWorld)) =
   Some (Inr [''a''])"
proof -
  let ?w = "emptyWorld\<lparr>tokenRequests := 1\<rparr> :: unit world"
  let ?u = "requestUri brokenSecondPage ''/view'' (None :: string list option)"
  let ?ps = "[page [''a''] (Some ''U2'')]"
  have pages: "servesPages (transport brokenSecondPage) ''Bearer first'' (length (issued ?w)) ?u ?ps"
    by (simp add: brokenSecondPage_def site_def answers_def replyWith_def servesPage_def
        emptyWorld_def)
  have links: "\<forall>p\<in>set ?ps. truthy (odata_nextLink p)"
    by (simp add: truthy_def page_def)
  have fails: "apiFetch (transport brokenSecondPage) (linkAfter ?u ?ps)
                 [(''Authorization'', ''Bearer first'')] None (Some GET) 0
                 (afterPages ?w ''Bearer first'' ?u ?ps) =
               (Inl (threwUp (FetchError ''ECONNRESET'')),
                sent (afterPages ?w ''Bearer first'' ?u ?ps) [0]
                  [fetchRequest (linkAfter ?u ?ps) [(''Authorization'', ''Bearer first'')] None
                     (Some GET)])"
    by (rule apiFetch_throws)
       (simp add: brokenSecondPage_def site_def answers_def afterPages_def emptyWorld_def)
  have tok: "tokenOrGet brokenSecondPage 0 None (unset, emptyWorld) =
     (Inr ''Bearer first'', firstToken, emptyWorld\<lparr>tokenRequests := 1\<rparr>)"
    unfolding brokenSecondPage_def by (rule site_first_token)
  from paginated_partial [OF tok pages links fails]
  show ?thesis
    by (simp add: page_def orEmpty_def)
qed

section \<open>C7: the pages are concatenated in order\<close>

text \<open>
  C7. Once the token is there, if the server serves the pages \<open>ps\<close> and then a page \<open>q\<close>
  with no next link, \<open>paginatedFetchFromCSOD\<close> returns the values of all these pages,
  concatenated in the order of the responses, after one request per page.
\<close>

theorem paginated_concatenates:
  assumes "tokenOrGet e now tok s = (Inr t, a, w)"
    and "servesPages (transport e) t (length (issued w)) (requestUri e up c) (ps @ [q])"
    and "\<not> truthy (odata_nextLink q)"
  shows "paginatedFetchFromCSOD e now up c tok s =
         Some (Inr (orEmpty c @ concat (map odata_value (ps @ [q]))), a,
               afterPages w t (requestUri e up c) (ps @ [q]))"
proof -
  let ?u = "requestUri e up c"
  let ?w = "afterPages w t ?u ps"
  from servesPages_append [OF assms(2)]
  have pages: "servesPages (transport e) t (length (issued w)) ?u ps"
    and links: "\<forall>p\<in>set ps. truthy (odata_nextLink p)"
    and final: "servesPage (transport e (length (issued w) + length ps)
                  (pageRequest (linkAfter ?u ps) t)) q"
    by simp_all
  from final have "servesPage (transport e (length (issued ?w)) (pageRequest (linkAfter ?u ps) t)) q"
    by (simp add: issued_afterPages)
  then have fetch: "apiFetch (transport e) (linkAfter ?u ps) [(''Authorization'', t)] None
                      (Some GET) 0 ?w = (Inr q, sent ?w [0] [pageRequest (linkAfter ?u ps) t])"
    by (rule apiFetch_page)
  have "paginatedFetchFromCSOD e now up c tok s =
        paginatedFetchFromCSOD e now up c (Some t) (a, w)"
    using assms(1) by (rule paginated_with_token)
  also have "\<dots> = paginatedFetchFromCSOD e now ?u (Some (orEmpty c)) (Some t) (a, w)"
    by (rule paginated_init)
  also have "\<dots> = paginatedFetchFromCSOD e now (linkAfter ?u ps)
                     (Some (orEmpty c @ concat (map odata_value ps))) (Some t) (a, ?w)"
    using pages links by (rule paginated_pages_then)
  also have "\<dots> = Some (Inr ((orEmpty c @ concat (map odata_value ps)) @ odata_value q), a,
                        sent ?w [0] [pageRequest (linkAfter ?u ps) t])"
    using fetch assms(3)
      paginated_last_page [where e = e and up = "linkAfter ?u ps" and p = q and w = ?w
        and c = "Some (orEmpty c @ concat (map odata_value ps))"]
    by simp
  finally show ?thesis
    by (simp add: afterPages_snoc)
qed

text \<open>
  C7, witness: the pages \<open>[a, b]\<close> with next link \<open>U2\<close> and \<open>[c]\<close> with none give
  \<open>[a, b, c]\<close>; a first page with no rows and no next link gives the empty collection.
\<close>

theorem paginated_concatenates_witness:
  "map_option fst (paginatedFetchFromCSOD twoPages 0 ''/view'' None None (unset, emptyWorld)) =
     Some (Inr [''a'', ''b'', ''c''])
   \<and> map_option fst
       (paginatedFetchFromCSOD emptyFirstPage 0 ''/view'' None None (unset, emptyWorld)) =
     Some (Inr [])"
proof -
  have two: "servesPages (transport twoPages) ''Bearer first''
               (length (issued (emptyWorld\<lparr>tokenRequests := 1\<rparr> :: unit world)))
               (requestUri twoPages ''/view'' (None :: string list option))
               ([page [''a'', ''b''] (Some ''U2'')] @ [page [''c''] None])"
    by (simp add: twoPages_def site_def answers_def replyWith_def servesPage_def truthy_def
        page_def emptyWorld_def)
  have none: "servesPages (transport emptyFirstPage) ''Bearer first''
               (length (issued (emptyWorld\<lparr>tokenRequests := 1\<rparr> :: unit world)))
               (requestUri emptyFirstPage ''/view'' (None :: string list option))
               ([] @ [page [] None])"
    by (simp add: emptyFirstPage_def site_def answers_def replyWith_def servesPage_def
        emptyWorld_def)
  have last: "\<not> truthy (odata_nextLink (page xs None))" for xs :: "string list"
    by (simp add: truthy_def page_def)
  have tok2: "tokenOrGet twoPages 0 None (unset, emptyWorld) =
     (Inr ''Bearer first'', firstToken, emptyWorld\<lparr>tokenRequests := 1\<rparr>)"
    unfolding twoPages_def by (rule site_first_token)
  have tok0: "tokenOrGet emptyFirstPage 0 None (unset, emptyWorld) =
     (Inr ''Bearer first'', firstToken, emptyWorld\<lparr>tokenRequests := 1\<rparr>)"
    unfolding emptyFirstPage_def by (rule site_first_token)
  from paginated_concatenates [OF tok2 two last] paginated_concatenates [OF tok0 none last]
  show ?thesis
    by (simp add: page_def orEmpty_def)
qed

section \<open>C8: apiFetch returns, whatever the transport does\<close>

text \<open>
  C8. \<open>apiFetch\<close> is a total function into the tagged result: every call ends either in a
  parsed body or in one of three failure records. In particular, when \<open>fetch\<close> throws, or
  \<open>response.json()\<close> throws on a malformed body, at the first attempt or after \<open>k\<close> rate
  limited ones, the exception \<open>e\<close> is returned inside the failure record of the \<open>catch\<close>
  branch.
\<close>

theorem apiFetch_never_raises:
  "((\<exists>b. fst (apiFetch tr u hs p m d w) = Inr b)
    \<or> fst (apiFetch tr u hs p m d w) = Inl gaveUp
    \<or> (\<exists>e. fst (apiFetch tr u hs p m d w) = Inl (threwUp e))
    \<or> (\<exists>r b. fst (apiFetch tr u hs p m d w) = Inl (badResponse r b)))
   \<and> ((\<forall>i<k. rateLimited (tr (length (issued w) + i) (fetchRequest u hs p m))) \<and>
       d + 15 * k \<le> 75 \<and>
       (tr (length (issued w) + k) (fetchRequest u hs p m) = Throws e
        \<or> (\<exists>r. tr (length (issued w) + k) (fetchRequest u hs p m) = Responds r \<and>
                json r = Inl e)) \<longrightarrow>
      apiFetch tr u hs p m d w =
        (Inl \<lparr>ok = False, body = MessageError ''fetch throwed up'' e, code = Some 0,
              response = None\<rparr>,
         sent w (delays d (Suc k)) (replicate (Suc k) (fetchRequest u hs p m))))"
proof (intro conjI impI)
  obtain out w' where out: "apiFetch tr u hs p m d w = (out, w')"
    by (cases "apiFetch tr u hs p m d w")
  show "(\<exists>b. fst (apiFetch tr u hs p m d w) = Inr b)
    \<or> fst (apiFetch tr u hs p m d w) = Inl gaveUp
    \<or> (\<exists>e. fst (apiFetch tr u hs p m d w) = Inl (threwUp e))
    \<or> (\<exists>r b. fst (apiFetch tr u hs p m d w) = Inl (badResponse r b))"
  proof (cases out)
    case (Inl f)
    with out apiFetch_failure_shape [of tr u hs p m d w f w'] show ?thesis
      by auto
  next
    case (Inr b)
    with out show ?thesis by simp
  qed
next
  let ?req = "fetchRequest u hs p m"
  let ?wk = "sent w (delays d k) (replicate k ?req)"
  assume a: "(\<forall>i<k. rateLimited (tr (length (issued w) + i) ?req)) \<and> d + 15 * k \<le> 75 \<and>
       (tr (length (issued w) + k) ?req = Throws e
        \<or> (\<exists>r. tr (length (issued w) + k) ?req = Responds r \<and> json r = Inl e))"
  then have retries: "\<forall>i<k. rateLimited (tr (length (issued w) + i) ?req)"
    and budget: "d + 15 * k \<le> 75"
    and thrown: "tr (length (issued w) + k) ?req = Throws e
        \<or> (\<exists>r. tr (length (issued w) + k) ?req = Responds r \<and> json r = Inl e)"
    by simp_all
  from thrown
  have "apiFetch tr u hs p m (d + 15 * k) ?wk = (Inl (threwUp e), sent ?wk [d + 15 * k] [?req])"
  proof
    assume "tr (length (issued w) + k) ?req = Throws e"
    then show ?thesis by (intro apiFetch_throws) simp
  next
    assume "\<exists>r. tr (length (issued w) + k) ?req = Responds r \<and> json r = Inl e"
    then obtain r where "tr (length (issued w) + k) ?req = Responds r" "json r = Inl e"
      by blast
    then show ?thesis by (intro apiFetch_malformed [where r = r]) simp_all
  qed
  then have "apiFetch tr u hs p m (d + 15 * k) ?wk =
    (Inl \<lparr>ok = False, body = MessageError ''fetch throwed up'' e, code = Some 0, response = None\<rparr>,
     sent ?wk [d + 15 * k] [?req])"
    by (simp add: threwUp_def)
  with retries budget
  show "apiFetch tr u hs p m d w =
        (Inl \<lparr>ok = False, body = MessageError ''fetch throwed up'' e, code = Some 0,
              response = None\<rparr>,
         sent w (delays d (Suc k)) (replicate (Suc k) ?req))"
    by (rule apiFetch_after_retries)
qed

text \<open>
  C8, witness: a connection reset on the first attempt, and a body that is not JSON on
  the attempt after a 429.
\<close>

theorem apiFetch_never_raises_witness:
  "apiFetch (answers [Throws (FetchError ''ECONNRESET'')]) ''/x'' [] None (Some GET) 0
     (emptyWorld :: unit world) =
     (Inl \<lparr>ok = False, body = MessageError ''fetch throwed up'' (FetchError ''ECONNRESET''),
           code = Some 0, response = (None :: string response option)\<rparr>,
      sent emptyWorld [0] [fetchRequest ''/x'' [] None (Some GET)])
   \<and> apiFetch (answers [replyWith 429 ''slow down'',
                        Responds \<lparr>status = 200, statusText = [],
                                  json = Inl (SyntaxError ''Unexpected token <'')\<rparr>])
       ''/x'' [] None (Some GET) 0 (emptyWorld :: unit world) =
     (Inl \<lparr>ok = False, body = MessageError ''fetch throwed up'' (SyntaxError ''Unexpected token <''),
           code = Some 0, response = None\<rparr>,
      sent emptyWorld [0, 15]
        [fetchRequest ''/x'' [] None (Some GET), fetchRequest ''/x'' [] None (Some GET)])"
  using
    conjunct2 [OF apiFetch_never_raises [of "answers [Throws (FetchError ''ECONNRESET'')]" "''/x''" "[]" None
      "Some GET" 0 "emptyWorld :: unit world" 0 "FetchError ''ECONNRESET''"]]
    conjunct2 [OF apiFetch_never_raises [of "answers [replyWith 429 ''slow down'',
                        Responds \<lparr>status = 200, statusText = [],
                                  json = Inl (SyntaxError ''Unexpected token <'')\<rparr>]"
      "''/x''" "[]" None "Some GET" 0 "emptyWorld :: unit world" 1
      "SyntaxError ''Unexpected token <''"]]
  by (simp add: answers_def replyWith_def rateLimited_def emptyWorld_def delays_def)

section \<open>C9: the fields of a failure record\<close>

text \<open>
  C9. The fields of the failure record tell the class of the failure, in both
  directions. A reply that \<open>apiFetch\<close> receives with a status other than 200 and 429 and a
  body that parses gives the record with \<open>ok = true\<close>, \<open>code\<close> the status of the reply, the
  parsed body and the response. A call whose replies are rate limited until the delay
  has passed 60 gives the record with \<open>ok = false\<close>, \<open>code = 0\<close>, no response and the
  gave-up message. A throw of \<open>fetch\<close> or of \<open>json()\<close> gives the record with \<open>ok = false\<close>,
  \<open>code = 0\<close>, no response and the exception. Conversely every failure record returned
  is of one of these kinds: with \<open>ok\<close> true it carries a response the server gave to this
  request, whose status is neither 200 nor 429, as \<open>code\<close>; with \<open>ok\<close> false its \<open>code\<close> is
  0 and it carries no response. So \<open>ok = false\<close> never comes with a status the server
  sent.
\<close>

theorem apiFetch_failure_fields:
  fixes tr :: "('p, 'b) transport"
  shows
    "((\<forall>i<k. rateLimited (tr (length (issued w) + i) (fetchRequest u hs p m))) \<and>
      d + 15 * k \<le> 75 \<and>
      tr (length (issued w) + k) (fetchRequest u hs p m) = Responds r \<and> json r = Inr b \<and>
      status r \<noteq> 200 \<and> status r \<noteq> 429 \<longrightarrow>
        apiFetch tr u hs p m d w =
          (Inl \<lparr>ok = True, body = Parsed b, code = Some (status r), response = Some r\<rparr>,
           sent w (delays d (Suc k)) (replicate (Suc k) (fetchRequest u hs p m))))
     \<and> ((\<forall>i<Suc k. rateLimited (tr (length (issued w) + i) (fetchRequest u hs p m))) \<and>
        d + 15 * k \<le> 75 \<and> 60 < d + 15 * k \<longrightarrow>
        apiFetch tr u hs p m d w =
          (Inl \<lparr>ok = False, body = Message ''429 - Gave up'', code = Some 0, response = None\<rparr>,
           sent w (delays d (Suc k)) (replicate (Suc k) (fetchRequest u hs p m))))
     \<and> ((\<forall>i<k. rateLimited (tr (length (issued w) + i) (fetchRequest u hs p m))) \<and>
        d + 15 * k \<le> 75 \<and>
        (tr (length (issued w) + k) (fetchRequest u hs p m) = Throws e
         \<or> (\<exists>x. tr (length (issued w) + k) (fetchRequest u hs p m) = Responds x \<and>
                 json x = Inl e)) \<longrightarrow>
        apiFetch tr u hs p m d w =
          (Inl \<lparr>ok = False, body = MessageError ''fetch throwed up'' e, code = Some 0,
                response = None\<rparr>,
           sent w (delays d (Suc k)) (replicate (Suc k) (fetchRequest u hs p m))))
     \<and> (apiFetch tr u hs p m d w = (Inl f, w') \<longrightarrow>
        (ok f \<and>
         (\<exists>x y n. tr n (fetchRequest u hs p m) = Responds x \<and> json x = Inr y \<and>
                  response f = Some x \<and> code f = Some (status x) \<and> body f = Parsed y \<and>
                  status x \<noteq> 200 \<and> status x \<noteq> 429))
        \<or> (\<not> ok f \<and> code f = Some 0 \<and> response f = None \<and>
            (body f = Message ''429 - Gave up'' \<or>
             (\<exists>x. body f = MessageError ''fetch throwed up'' x))))"
proof (intro conjI impI)
  let ?req = "fetchRequest u hs p m"
  let ?wk = "sent w (delays d k) (replicate k ?req)"
  assume h: "(\<forall>i<k. rateLimited (tr (length (issued w) + i) ?req)) \<and> d + 15 * k \<le> 75 \<and>
      tr (length (issued w) + k) ?req = Responds r \<and> json r = Inr b \<and>
      status r \<noteq> 200 \<and> status r \<noteq> 429"
  then have retries: "\<forall>i<k. rateLimited (tr (length (issued w) + i) ?req)"
    and budget: "d + 15 * k \<le> 75"
    by simp_all
  from h have "apiFetch tr u hs p m (d + 15 * k) ?wk =
      (Inl (badResponse r b), sent ?wk [d + 15 * k] [?req])"
    by (intro apiFetch_bad) simp_all
  then have "apiFetch tr u hs p m (d + 15 * k) ?wk =
      (Inl \<lparr>ok = True, body = Parsed b, code = Some (status r), response = Some r\<rparr>,
       sent ?wk [d + 15 * k] [?req])"
    by (simp add: badResponse_def)
  with retries budget
  show "apiFetch tr u hs p m d w =
          (Inl \<lparr>ok = True, body = Parsed b, code = Some (status r), response = Some r\<rparr>,
           sent w (delays d (Suc k)) (replicate (Suc k) ?req))"
    by (rule apiFetch_after_retries)
next
  let ?req = "fetchRequest u hs p m"
  let ?wk = "sent w (delays d k) (replicate k ?req)"
  assume h: "(\<forall>i<Suc k. rateLimited (tr (length (issued w) + i) ?req)) \<and>
      d + 15 * k \<le> 75 \<and> 60 < d + 15 * k"
  then have retries: "\<forall>i<k. rateLimited (tr (length (issued w) + i) ?req)"
    and budget: "d + 15 * k \<le> 75"
    and final: "rateLimited (tr (length (issued ?wk)) ?req)"
    and late: "60 < d + 15 * k"
    by simp_all
  from final late have "apiFetch tr u hs p m (d + 15 * k) ?wk =
      (Inl gaveUp, sent ?wk [d + 15 * k] [?req])"
    by (rule apiFetch_gaveUp)
  then have "apiFetch tr u hs p m (d + 15 * k) ?wk =
      (Inl \<lparr>ok = False, body = Message ''429 - Gave up'', code = Some 0, response = None\<rparr>,
       sent ?wk [d + 15 * k] [?req])"
    by (simp add: gaveUp_def)
  with retries budget
  show "apiFetch tr u hs p m d w =
          (Inl \<lparr>ok = False, body = Message ''429 - Gave up'', code = Some 0, response = None\<rparr>,
           sent w (delays d (Suc k)) (replicate (Suc k) ?req))"
    by (rule apiFetch_after_retries)
next
  let ?req = "fetchRequest u hs p m"
  let ?wk = "sent w (delays d k) (replicate k ?req)"
  assume h: "(\<forall>i<k. rateLimited (tr (length (issued w) + i) ?req)) \<and> d + 15 * k \<le> 75 \<and>
      (tr (length (issued w) + k) ?req = Throws e
       \<or> (\<exists>x. tr (length (issued w) + k) ?req = Responds x \<and> json x = Inl e))"
  then have retries: "\<forall>i<k. rateLimited (tr (length (issued w) + i) ?req)"
    and budget: "d + 15 * k \<le> 75"
    and thrown: "tr (length (issued w) + k) ?req = Throws e
       \<or> (\<exists>x. tr (length (issued w) + k) ?req = Responds x \<and> json x = Inl e)"
    by simp_all
  from thrown
  have "apiFetch tr u hs p m (d + 15 * k) ?wk = (Inl (threwUp e), sent ?wk [d + 15 * k] [?req])"
  proof
    assume "tr (length (issued w) + k) ?req = Throws e"
    then show ?thesis by (intro apiFetch_throws) simp
  next
    assume "\<exists>x. tr (length (issued w) + k) ?req = Responds x \<and> json x = Inl e"
    then obtain x where "tr (length (issued w) + k) ?req = Responds x" "json x = Inl e"
      by blast
    then show ?thesis by (intro apiFetch_malformed [where r = x]) simp_all
  qed
  then have "apiFetch tr u hs p m (d + 15 * k) ?wk =
      (Inl \<lparr>ok = False, body = MessageError ''fetch throwed up'' e, code = Some 0,
            response = None\<rparr>,
       sent ?wk [d + 15 * k] [?req])"
    by (simp add: threwUp_def)
  with retries budget
  show "apiFetch tr u hs p m d w =
          (Inl \<lparr>ok = False, body = MessageError ''fetch throwed up'' e, code = Some 0,
                response = None\<rparr>,
           sent w (delays d (Suc k)) (replicate (Suc k) ?req))"
    by (rule apiFetch_after_retries)
next
  assume res: "apiFetch tr u hs p m d w = (Inl f, w')"
  from apiFetch_failure_shape [OF res]
  consider "f = gaveUp" | x where "f = threwUp x"
    | x y n where "f = badResponse x y" "tr n (fetchRequest u hs p m) = Responds x"
        "json x = Inr y" "status x \<noteq> 200" "status x \<noteq> 429"
    by blast
  then show "(ok f \<and>
         (\<exists>x y n. tr n (fetchRequest u hs p m) = Responds x \<and> json x = Inr y \<and>
                  response f = Some x \<and> code f = Some (status x) \<and> body f = Parsed y \<and>
                  status x \<noteq> 200 \<and> status x \<noteq> 429))
        \<or> (\<not> ok f \<and> code f = Some 0 \<and> response f = None \<and>
            (body f = Message ''429 - Gave up'' \<or>
             (\<exists>x. body f = MessageError ''fetch throwed up'' x)))"
  proof cases
    case 1
    then show ?thesis by (simp add: gaveUp_def)
  next
    case 2
    then show ?thesis by (simp add: threwUp_def)
  next
    case 3
    then have "ok f" "response f = Some x" "code f = Some (status x)" "body f = Parsed y"
      by (simp_all add: badResponse_def)
    with 3 show ?thesis by blast
  qed
qed

text \<open>
  C9, witness: the record of a 404, the record after six 429s, and the record of a
  connection reset.
\<close>

theorem apiFetch_failure_fields_witness:
  "apiFetch (answers [replyWith 404 ''no such view'']) ''/x'' [] None (Some GET) 0
     (emptyWorld :: unit world) =
     (Inl \<lparr>ok = True, body = Parsed ''no such view'', code = Some 404,
           response = Some \<lparr>status = 404, statusText = [], json = Inr ''no such view''\<rparr>\<rparr>,
      sent emptyWorld [0] [fetchRequest ''/x'' [] None (Some GET)])
   \<and> apiFetch always429 ''/x'' [] None None 0 emptyWorld =
     (Inl \<lparr>ok = False, body = Message ''429 - Gave up'', code = Some 0, response = None\<rparr>,
      sent emptyWorld [0, 15, 30, 45, 60, 75]
        [fetchRequest ''/x'' [] None None, fetchRequest ''/x'' [] None None,
         fetchRequest ''/x'' [] None None, fetchRequest ''/x'' [] None None,
         fetchRequest ''/x'' [] None None, fetchRequest ''/x'' [] None None])
   \<and> apiFetch (answers [] :: (unit, string) transport) ''/x'' [] None (Some GET) 0 emptyWorld =
     (Inl \<lparr>ok = False, body = MessageError ''fetch throwed up'' (FetchError ''ECONNRESET''),
           code = Some 0, response = None\<rparr>,
      sent emptyWorld [0] [fetchRequest ''/x'' [] None (Some GET)])
   \<and> \<not> ok (gaveUp :: string FetchResponse)
   \<and> code (gaveUp :: string FetchResponse) = Some 0
   \<and> response (gaveUp :: string FetchResponse) = None"
proof -
  have c1: "apiFetch (answers [replyWith 404 ''no such view'']) ''/x'' [] None (Some GET) 0
     (emptyWorld :: unit world) =
     (Inl \<lparr>ok = True, body = Parsed ''no such view'', code = Some 404,
           response = Some \<lparr>status = 404, statusText = [], json = Inr ''no such view''\<rparr>\<rparr>,
      sent emptyWorld [0] [fetchRequest ''/x'' [] None (Some GET)])"
    using conjunct1 [OF apiFetch_failure_fields
      [where tr = "answers [replyWith 404 ''no such view'']" and w = "emptyWorld :: unit world"
        and u = "''/x''" and hs = "[]" and p = None and m = "Some GET" and d = 0 and k = 0
        and r = "\<lparr>status = 404, statusText = [], json = Inr ''no such view''\<rparr>"
        and b = "''no such view''"]]
    by (simp add: answers_def replyWith_def emptyWorld_def delays_def)
  have c2: "apiFetch always429 ''/x'' [] None None 0 emptyWorld =
     (Inl \<lparr>ok = False, body = Message ''429 - Gave up'', code = Some 0, response = None\<rparr>,
      sent emptyWorld (delays 0 (Suc 5)) (replicate (Suc 5) (fetchRequest ''/x'' [] None None)))"
    using conjunct1 [OF conjunct2 [OF apiFetch_failure_fields
      [where tr = always429 and w = emptyWorld and u = "''/x''" and hs = "[]" and p = None
        and m = None and d = 0 and k = 5]]]
    by (simp add: always429_def replyWith_def rateLimited_def)
  have c3: "apiFetch (answers [] :: (unit, string) transport) ''/x'' [] None (Some GET) 0
     emptyWorld =
     (Inl \<lparr>ok = False, body = MessageError ''fetch throwed up'' (FetchError ''ECONNRESET''),
           code = Some 0, response = None\<rparr>,
      sent emptyWorld [0] [fetchRequest ''/x'' [] None (Some GET)])"
    using conjunct1 [OF conjunct2 [OF conjunct2 [OF apiFetch_failure_fields
      [where tr = "answers [] :: (unit, string) transport" and w = emptyWorld and u = "''/x''"
        and hs = "[]" and p = None and m = "Some GET" and d = 0 and k = 0
        and e = "FetchError ''ECONNRESET''"]]]]
    by (simp add: answers_def emptyWorld_def delays_def)
  have c4: "\<not> ok (gaveUp :: string FetchResponse) \<and> code (gaveUp :: string FetchResponse) = Some 0
            \<and> response (gaveUp :: string FetchResponse) = None"
    using conjunct2 [OF conjunct2 [OF conjunct2 [OF apiFetch_failure_fields
      [where tr = always429 and w = emptyWorld and u = "''/x''" and hs = "[]" and p = None
        and m = None and d = 0 and f = gaveUp
        and w' = "sent emptyWorld (delays 0 (Suc 5))
                    (replicate (Suc 5) (fetchRequest ''/x'' [] None None))"]]]] c2
    by (simp add: gaveUp_def)
  have six: "delays 0 (Suc 5) = [0, 15, 30, 45, 60, 75]"
    by (simp add: delays_def upt_rec)
  from c1 c2 c3 c4 six show ?thesis
    by (simp add: numeral_eq_Suc)
qed

section \<open>C10: walking an unchanged dataset twice\<close>

text \<open>
  C10. Against a server whose reply depends on the requested URI only, two runs of
  \<open>paginatedFetchFromCSOD\<close> from the same path give the same outcome: the same items in
  the same order, or no return in either run. The runs may start in different states,
  at different times and with different tokens, as long as each gets a token. Both runs
  do return, and return the same collection, when the walk through the dataset ends:
  when the dataset holds pages \<open>ps\<close> and then a page \<open>q\<close> with no next link, both return the
  values of all of them in order; when it holds pages \<open>ps\<close> with next links and the fetch
  of the last link fails, both return the values of \<open>ps\<close> in order.
\<close>

theorem paginated_repeatable:
  fixes e :: "('p, 'a ODataResponse) env" and w0 :: "'p world"
  assumes "transport e = uriServer srv"
    and "tokenOrGet e now tok s = (Inr t, s1)"
    and "tokenOrGet e now' tok' s' = (Inr t', s1')"
  shows "map_option fst (paginatedFetchFromCSOD e now up c tok s) =
           map_option fst (paginatedFetchFromCSOD e now' up c tok' s')
         \<and> (chain srv (requestUri e up c) (ps @ [q]) \<and> \<not> truthy (odata_nextLink q) \<longrightarrow>
              map_option fst (paginatedFetchFromCSOD e now up c tok s) =
                Some (Inr (orEmpty c @ concat (map odata_value (ps @ [q])))) \<and>
              map_option fst (paginatedFetchFromCSOD e now' up c tok' s') =
                Some (Inr (orEmpty c @ concat (map odata_value (ps @ [q])))))
         \<and> (chain srv (requestUri e up c) ps \<and> (\<forall>p\<in>set ps. truthy (odata_nextLink p)) \<and>
            fst (apiFetch (uriServer srv) (linkAfter (requestUri e up c) ps) hs0 None (Some GET)
                   0 w0) = Inl f \<longrightarrow>
              map_option fst (paginatedFetchFromCSOD e now up c tok s) =
                Some (Inr (orEmpty c @ concat (map odata_value ps))) \<and>
              map_option fst (paginatedFetchFromCSOD e now' up c tok' s') =
                Some (Inr (orEmpty c @ concat (map odata_value ps))))"
proof (intro conjI impI)
  let ?run = "paginatedFetchFromCSOD e now up c (Some t) s1"
  let ?again = "paginatedFetchFromCSOD e now' up c (Some t') s1'"
  have forth: "\<exists>s2. ?again = Some (fst y, s2)" if "?run = Some y" for y
    using paginated_repeat [OF that, of srv] assms(1) by blast
  have backw: "\<exists>s2. ?run = Some (fst y, s2)" if "?again = Some y" for y
    using paginated_repeat [OF that, of srv] assms(1) by blast
  have "map_option fst ?run = map_option fst ?again"
  proof (cases ?run)
    case None
    with backw show ?thesis
      by (cases ?again) auto
  next
    case (Some y)
    with forth [OF Some] show ?thesis
      by auto
  qed
  then show "map_option fst (paginatedFetchFromCSOD e now up c tok s) =
             map_option fst (paginatedFetchFromCSOD e now' up c tok' s')"
    by (simp add: paginated_with_token [OF assms(2)] paginated_with_token [OF assms(3)])
next
  assume h: "chain srv (requestUri e up c) (ps @ [q]) \<and> \<not> truthy (odata_nextLink q)"
  then have ch: "chain srv (requestUri e up c) (ps @ [q])" and last: "\<not> truthy (odata_nextLink q)"
    by simp_all
  show "map_option fst (paginatedFetchFromCSOD e now up c tok s) =
          Some (Inr (orEmpty c @ concat (map odata_value (ps @ [q]))))"
    using assms(1,2) ch last by (rule paginated_uri_walk_ends)
  show "map_option fst (paginatedFetchFromCSOD e now' up c tok' s') =
          Some (Inr (orEmpty c @ concat (map odata_value (ps @ [q]))))"
    using assms(1,3) ch last by (rule paginated_uri_walk_ends)
next
  assume h: "chain srv (requestUri e up c) ps \<and> (\<forall>p\<in>set ps. truthy (odata_nextLink p)) \<and>
            fst (apiFetch (uriServer srv) (linkAfter (requestUri e up c) ps) hs0 None (Some GET)
                   0 w0) = Inl f"
  then have ch: "chain srv (requestUri e up c) ps"
    and links: "\<forall>p\<in>set ps. truthy (odata_nextLink p)"
    and fails: "fst (apiFetch (uriServer srv) (linkAfter (requestUri e up c) ps) hs0 None
                       (Some GET) 0 w0) = Inl f"
    by simp_all
  show "map_option fst (paginatedFetchFromCSOD e now up c tok s) =
          Some (Inr (orEmpty c @ concat (map odata_value ps)))"
    using assms(1,2) ch links fails by (rule paginated_uri_walk_fails)
  show "map_option fst (paginatedFetchFromCSOD e now' up c tok' s') =
          Some (Inr (orEmpty c @ concat (map odata_value ps)))"
    using assms(1,3) ch links fails by (rule paginated_uri_walk_fails)
qed

text \<open>
  C10, witness: a run that fetches the first token, and a run a minute later, when that
  token has expired and a second one is fetched. From \<open>/view\<close> both return \<open>[a, b, c]\<close>;
  from a path the dataset does not have both return the empty collection.
\<close>

theorem paginated_repeatable_witness:
  "map_option fst (paginatedFetchFromCSOD shop 0 ''/view'' None None (unset, emptyWorld)) =
     Some (Inr [''a'', ''b'', ''c''])
   \<and> map_option fst
       (paginatedFetchFromCSOD shop 60000 ''/view'' None None
          (firstToken, emptyWorld\<lparr>tokenRequests := 1\<rparr>)) =
     Some (Inr [''a'', ''b'', ''c''])
   \<and> map_option fst (paginatedFetchFromCSOD shop 0 ''/gone'' None None (unset, emptyWorld)) =
     Some (Inr [])
   \<and> map_option fst
       (paginatedFetchFromCSOD shop 60000 ''/gone'' None None
          (firstToken, emptyWorld\<lparr>tokenRequests := 1\<rparr>)) =
     Some (Inr [])"
proof -
  have tr: "transport shop = uriServer catalogue"
    by (simp add: shop_def site_def)
  have first: "tokenOrGet shop 0 None (unset, emptyWorld) =
     (Inr ''Bearer first'', firstToken, emptyWorld\<lparr>tokenRequests := 1\<rparr>)"
    unfolding shop_def by (rule site_first_token)
  have second: "tokenOrGet shop 60000 None (firstToken, emptyWorld\<lparr>tokenRequests := 1\<rparr>) =
     (Inr ''Bearer second'', \<lparr>token = Some ''Bearer second'', expiration = Some 75000\<rparr>,
      emptyWorld\<lparr>tokenRequests := 2\<rparr>)"
    by (simp add: tokenOrGet_def apiToken_get_def refreshToken_def fetchAPIToken_def shop_def
        site_def numbered_def tokenReply_def noLatency_def Let_def setSeconds_plus15 UTC_def
        LocalTime_def utcZone_def firstToken_def emptyWorld_def)
  have pages: "chain catalogue (requestUri shop ''/view'' (None :: string list option))
                 ([page [''a'', ''b''] (Some ''U2'')] @ [page [''c''] None])"
    by (simp add: requestUri_def shop_def site_def catalogue_def replyWith_def servesPage_def
        truthy_def linkOf_def page_def)
  have last: "\<not> truthy (odata_nextLink (page [''c''] None))"
    by (simp add: truthy_def page_def)
  have gone: "fst (apiFetch (uriServer catalogue)
                (linkAfter (requestUri shop ''/gone'' (None :: string list option)) []) [] None
                (Some GET) 0 (emptyWorld :: unit world)) = Inl (threwUp (FetchError ''ENOTFOUND''))"
    by (subst apiFetch_throws [where e = "FetchError ''ENOTFOUND''"])
       (simp_all add: uriServer_def catalogue_def requestUri_def shop_def site_def)
  from paginated_repeatable [OF tr first second, of "''/view''" None
      "[page [''a'', ''b''] (Some ''U2'')]" "page [''c''] None"]
    paginated_repeatable [OF tr first second, where up = "''/gone''"
      and c = "None :: string list option" and ps = "[]" and ?hs0.0 = "[]"
      and ?w0.0 = "emptyWorld :: unit world" and f = "threwUp (FetchError ''ENOTFOUND'')"]
    pages last gone
  show ?thesis
    by (simp add: page_def orEmpty_def)
qed

end
